theory Spec2Isabelle
  imports Complex_Main "HOL-Library.Char_ord"
begin

section \<open>Data model (src/types.ts)\<close>

text \<open>
  A JavaScript string is modelled as a HOL \<open>string\<close>; a \<open>char\<close> stands for one
  code unit below 256. Counters that the program compares or decrements are \<open>nat\<close> or
  \<open>int\<close>. A value that \<open>JSON.parse\<close> produces is a \<open>json\<close>; the number in
  \<open>JNumber\<close> is only ever copied. The result of reading a property is a
  \<open>json option\<close>, \<open>None\<close> for \<open>undefined\<close>.

  The interface \<open>GamblingSite\<close> declares \<open>site_name\<close> a string and
  \<open>confidence_score\<close> a number, but the record is filled with whatever the parsed
  response holds under these names, unchecked; the two fields therefore have the type of
  a property read.
\<close>

datatype json =
    JNull
  | JBool bool
  | JNumber real
  | JString string
  | JArray "json list"
  | JObject "(string \<times> json) list"

datatype SiteStatus = ACTIVE | FLAGGED | FALSE_POSITIVE

record GamblingSite =
  site_id :: string
  site_name :: "json option"
  normalized_name :: string
  first_seen :: string
  last_seen :: string
  confidence_score :: "json option"
  status :: SiteStatus
  source_count :: nat
  sources :: "string list"

datatype LogType = Info | Success | Warning | Error

record AgentLog =
  timestamp :: string
  message :: string
  log_type :: LogType

section \<open>The insertion-ordered Map of the runtime\<close>

text \<open>
  \<open>new Map(entries)\<close> calls \<open>set\<close> for each entry in turn. \<open>set\<close> on a key that
  is present replaces the value and leaves the key at its place; on a new key it
  adds the entry at the end. \<open>values()\<close> iterates in that order.
\<close>

type_synonym ('k, 'v) js_map = "('k \<times> 'v) list"

fun map_set :: "('k, 'v) js_map \<Rightarrow> 'k \<Rightarrow> 'v \<Rightarrow> ('k, 'v) js_map" where
  "map_set [] k v = [(k, v)]"
| "map_set ((k', v') # m) k v =
     (if k' = k then (k', v) # m else (k', v') # map_set m k v)"

definition map_set_all :: "('k, 'v) js_map \<Rightarrow> ('k \<times> 'v) list \<Rightarrow> ('k, 'v) js_map" where
  "map_set_all m entries = foldl (\<lambda>acc (k, v). map_set acc k v) m entries"

definition new_Map :: "('k \<times> 'v) list \<Rightarrow> ('k, 'v) js_map" where
  "new_Map entries = map_set_all [] entries"

definition map_values :: "('k, 'v) js_map \<Rightarrow> 'v list" where
  "map_values m = map snd m"

section \<open>Registry operations (src/App.tsx)\<close>

text \<open>The updater passed to \<open>setSites\<close> in \<open>handleDiscovery\<close> (lines 55 to 67).\<close>

definition keyed :: "GamblingSite list \<Rightarrow> (string \<times> GamblingSite) list" where
  "keyed items = map (\<lambda>item. (normalized_name item, item)) items"

definition mergeSites :: "GamblingSite list \<Rightarrow> GamblingSite list \<Rightarrow> GamblingSite list" where
  "mergeSites newSites prev =
     (let combined = newSites @ prev;
          unique = map_values (new_Map (keyed combined))
      in unique)"

text \<open>The updater passed to \<open>setSites\<close> in \<open>toggleStatus\<close> (lines 153 to 161).\<close>

definition toggleStatus :: "string \<Rightarrow> GamblingSite list \<Rightarrow> GamblingSite list" where
  "toggleStatus i prev =
     map (\<lambda>s. if site_id s = i
               then (let nextStatus = (if status s = ACTIVE then FALSE_POSITIVE else ACTIVE)
                     in s\<lparr>status := nextStatus\<rparr>)
               else s) prev"

text \<open>
  \<open>addLog\<close> (lines 20 to 26): the updater passed to \<open>setLogs\<close>. The clock reading
  \<open>new Date().toLocaleTimeString()\<close> is the argument \<open>now\<close>.
\<close>

definition addLog :: "string \<Rightarrow> string \<Rightarrow> LogType \<Rightarrow> AgentLog list \<Rightarrow> AgentLog list" where
  "addLog now msg ty prev =
     take 50 (\<lparr>timestamp = now, message = msg, log_type = ty\<rparr> # prev)"


section \<open>Strings\<close>

text \<open>
  \<open>String.prototype.trim\<close>, \<open>toLowerCase\<close>, the replacement of the class
  \<open>[^a-z0-9]\<close> by the empty string, \<open>split('.')[0]\<close> and the decimal rendering of a
  non-negative integer in a template literal, on code units below 256.
\<close>

definition isWhiteSpace :: "char \<Rightarrow> bool" where
  "isWhiteSpace c =
     (c \<in> set [CHR 0x09, CHR 0x0A, CHR 0x0B, CHR 0x0C, CHR 0x0D, CHR 0x20, CHR 0xA0])"

definition trim :: "string \<Rightarrow> string" where
  "trim s = rev (dropWhile isWhiteSpace (rev (dropWhile isWhiteSpace s)))"

definition char_toLowerCase :: "char \<Rightarrow> char" where
  "char_toLowerCase c =
     (if (CHR ''A'' \<le> c \<and> c \<le> CHR ''Z'')
         \<or> (CHR 0xC0 \<le> c \<and> c \<le> CHR 0xDE \<and> c \<noteq> CHR 0xD7)
      then char_of (of_char c + (32::nat)) else c)"

definition toLowerCase :: "string \<Rightarrow> string" where
  "toLowerCase s = map char_toLowerCase s"

definition in_az09 :: "char \<Rightarrow> bool" where
  "in_az09 c = ((CHR ''a'' \<le> c \<and> c \<le> CHR ''z'') \<or> (CHR ''0'' \<le> c \<and> c \<le> CHR ''9''))"

definition strip_symbols :: "string \<Rightarrow> string" where
  "strip_symbols s = filter in_az09 s"

definition before_first_dot :: "string \<Rightarrow> string" where
  "before_first_dot s = takeWhile (\<lambda>c. c \<noteq> CHR ''.'') s"

function string_of_nat :: "nat \<Rightarrow> string" where
  "string_of_nat n =
     (if n < 10 then [char_of (48 + n)]
      else string_of_nat (n div 10) @ [char_of (48 + n mod 10)])"
  by pat_completeness auto
termination
  by (relation "measure id") auto

section \<open>The discovery service (performDiscovery)\<close>

text \<open>
  The part of the grounding service's response that \<open>performDiscovery\<close> reads. A field
  that may be absent is an \<open>option\<close>.
\<close>

record Web =
  uri :: "string option"

record GroundingChunk =
  web :: "Web option"

record GroundingMetadata =
  groundingChunks :: "GroundingChunk list option"

record Candidate =
  groundingMetadata :: "GroundingMetadata option"

record GenerateContentResponse =
  candidates :: "Candidate list option"
  response_text :: string

text \<open>What a \<open>catch\<close> clause receives: an \<open>Error\<close> object with its message, or another value.\<close>

datatype thrown = ErrorObject string | NotAnError

text \<open>
  The TypeErrors that the runtime raises in \<open>performDiscovery\<close>: reading the named
  property of \<open>null\<close> or of \<open>undefined\<close>, and calling the named property when it is
  not a function.
\<close>

datatype type_error = ReadOfNull string | ReadOfUndefined string | NotAFunction string

text \<open>
  \<open>v.p\<close> for a parsed value \<open>v\<close> and one of the four names the code reads
  (\<open>extracted_sites\<close>, \<open>site_name\<close>, \<open>normalized_name\<close>, \<open>confidence_score\<close>),
  none of which a prototype defines: it throws on \<open>null\<close>, finds the own property of an
  object, and is \<open>undefined\<close> on a boolean, a number, a string or an array.
\<close>

definition get_prop :: "json \<Rightarrow> string \<Rightarrow> type_error + json option" where
  "get_prop v p =
     (case v of
        JNull \<Rightarrow> Inl (ReadOfNull p)
      | JObject kvs \<Rightarrow> Inr (map_of kvs p)
      | _ \<Rightarrow> Inr None)"

text \<open>
  \<open>v.map(f)\<close> reaches the callback only when \<open>v\<close> is an array, and
  \<open>v.toLowerCase()\<close> only when \<open>v\<close> is a string. On \<open>undefined\<close> and \<open>null\<close>
  the read of the method throws; on any other parsed value the method is missing or,
  for an object with a property of that name, is not a function.
\<close>

definition array_receiver :: "json option \<Rightarrow> type_error + json list" where
  "array_receiver v =
     (case v of
        None \<Rightarrow> Inl (ReadOfUndefined ''map'')
      | Some JNull \<Rightarrow> Inl (ReadOfNull ''map'')
      | Some (JArray xs) \<Rightarrow> Inr xs
      | Some _ \<Rightarrow> Inl (NotAFunction ''map''))"

definition string_receiver :: "json option \<Rightarrow> type_error + string" where
  "string_receiver v =
     (case v of
        None \<Rightarrow> Inl (ReadOfUndefined ''toLowerCase'')
      | Some JNull \<Rightarrow> Inl (ReadOfNull ''toLowerCase'')
      | Some (JString s) \<Rightarrow> Inr s
      | Some _ \<Rightarrow> Inl (NotAFunction ''toLowerCase''))"

text \<open>\<open>Array.prototype.map\<close> with a callback that may throw: the first throw ends it.\<close>

fun map_throwing :: "('a \<Rightarrow> 'e + 'b) \<Rightarrow> 'a list \<Rightarrow> 'e + 'b list" where
  "map_throwing f [] = Inr []"
| "map_throwing f (x # xs) =
     (case f x of
        Inl e \<Rightarrow> Inl e
      | Inr y \<Rightarrow> (case map_throwing f xs of Inl e \<Rightarrow> Inl e | Inr ys \<Rightarrow> Inr (y # ys)))"

text \<open>The object \<open>{ sites, sources }\<close> that \<open>performDiscovery\<close> resolves to.\<close>

record DiscoveryOutput =
  out_sites :: "GamblingSite list"
  out_sources :: "string list"

text \<open>
  Line 98: the optional chain over the first candidate's grounding chunks, then
  \<open>filter(Boolean)\<close>, which drops absent and empty URIs, then \<open>|| []\<close>.
\<close>

definition truthy :: "string option \<Rightarrow> bool" where
  "truthy u = (case u of None \<Rightarrow> False | Some s \<Rightarrow> s \<noteq> [])"

definition chunk_uri :: "GroundingChunk \<Rightarrow> string option" where
  "chunk_uri chunk = (case web chunk of None \<Rightarrow> None | Some w \<Rightarrow> uri w)"

definition grounding_sources :: "GenerateContentResponse \<Rightarrow> string list" where
  "grounding_sources response =
     (case candidates response of
        None \<Rightarrow> []
      | Some [] \<Rightarrow> []
      | Some (c # _) \<Rightarrow>
          (case groundingMetadata c of
             None \<Rightarrow> []
           | Some gm \<Rightarrow>
               (case groundingChunks gm of
                  None \<Rightarrow> []
                | Some chunks \<Rightarrow> map the (filter truthy (map chunk_uri chunks)))))"

text \<open>
  Lines 109 to 119: the callback of \<open>map\<close>, applied to the \<open>i\<close>-th element. The
  object literal is evaluated field by field, so a \<open>null\<close> element throws at the read of
  \<open>site_name\<close> and an element without a string under \<open>normalized_name\<close> throws at
  \<open>toLowerCase\<close>. \<open>ids i\<close> is the value of \<open>Math.random().toString(36).substr(2, 9)\<close>
  and \<open>draws i\<close> the value of \<open>Math.floor(Math.random() * 5)\<close> for that element, a
  product of floating-point numbers that lies between 0 and 4.
\<close>

definition make_site ::
  "(nat \<Rightarrow> string) \<Rightarrow> (nat \<Rightarrow> nat) \<Rightarrow> string \<Rightarrow> string list \<Rightarrow> nat \<times> json
     \<Rightarrow> type_error + GamblingSite" where
  "make_site ids draws ts srcs p =
     (case p of (i, site) \<Rightarrow>
        (case get_prop site ''site_name'' of
           Inl e \<Rightarrow> Inl e
         | Inr name \<Rightarrow>
             (case get_prop site ''normalized_name'' of
                Inl e \<Rightarrow> Inl e
              | Inr received \<Rightarrow>
                  (case string_receiver received of
                     Inl e \<Rightarrow> Inl e
                   | Inr s \<Rightarrow>
                       (case get_prop site ''confidence_score'' of
                          Inl e \<Rightarrow> Inl e
                        | Inr score \<Rightarrow>
                            Inr \<lparr>site_id = ids i,
                                 site_name = name,
                                 normalized_name = strip_symbols (toLowerCase s),
                                 first_seen = ts,
                                 last_seen = ts,
                                 confidence_score = score,
                                 status = ACTIVE,
                                 source_count = draws i + 1,
                                 sources = take 3 srcs\<rparr>)))))"

text \<open>
  The string that an element of \<open>extracted_sites\<close> holds under \<open>normalized_name\<close>,
  empty when it holds none.
\<close>

definition received_name :: "json \<Rightarrow> string" where
  "received_name site =
     (case get_prop site ''normalized_name'' of
        Inr (Some (JString s)) \<Rightarrow> s
      | _ \<Rightarrow> [])"

text \<open>
  \<open>performDiscovery\<close> (lines 52 to 122). The awaited call of the grounding service
  either throws or yields a response; \<open>generateContent\<close> stands for it, applied to the
  two parts of the prompt that vary. \<open>JSON_parse\<close> stands for \<open>JSON.parse\<close>:
  \<open>None\<close> when the text is not JSON and the parser throws a SyntaxError, which the
  \<open>try\<close> block of lines 101 to 106 catches. The reads of lines 109 to 112 are outside
  that block: a TypeError there leaves the function, as an \<open>Error\<close> object with the
  message the runtime gives it, \<open>typeErrorMessage\<close>. \<open>ts\<close> is the reading of
  \<open>new Date().toISOString()\<close>.
\<close>

definition performDiscovery ::
  "(string \<Rightarrow> string list \<Rightarrow> thrown + GenerateContentResponse)
     \<Rightarrow> (string \<Rightarrow> json option) \<Rightarrow> (type_error \<Rightarrow> string)
     \<Rightarrow> (nat \<Rightarrow> string) \<Rightarrow> (nat \<Rightarrow> nat) \<Rightarrow> string
     \<Rightarrow> string \<Rightarrow> string list \<Rightarrow> thrown + DiscoveryOutput" where
  "performDiscovery generateContent JSON_parse typeErrorMessage ids draws ts query knownPatterns =
     (case generateContent query (take 20 knownPatterns) of
        Inl e \<Rightarrow> Inl e
      | Inr response \<Rightarrow>
          (let srcs = grounding_sources response;
               result =
                 (case JSON_parse (response_text response) of
                    None \<Rightarrow> JObject [(''extracted_sites'', JArray [])]
                  | Some v \<Rightarrow> v)
           in case get_prop result ''extracted_sites'' of
                Inl e \<Rightarrow> Inl (ErrorObject (typeErrorMessage e))
              | Inr extracted_sites \<Rightarrow>
                  (case array_receiver extracted_sites of
                     Inl e \<Rightarrow> Inl (ErrorObject (typeErrorMessage e))
                   | Inr elements \<Rightarrow>
                       (case map_throwing (make_site ids draws ts srcs)
                               (zip [0..<length elements] elements) of
                          Inl e \<Rightarrow> Inl (ErrorObject (typeErrorMessage e))
                        | Inr new_sites \<Rightarrow>
                            Inr \<lparr>out_sites = new_sites, out_sources = srcs\<rparr>))))"

section \<open>The dashboard state (src/App.tsx)\<close>

record App =
  sites :: "GamblingSite list"
  logs :: "AgentLog list"
  isSearching :: bool
  isAnalyzing :: bool
  isAutonomous :: bool
  searchQuery :: string
  isCopied :: bool
  autoCycleCount :: nat
  nextCycleCountdown :: int

definition initial_App :: App where
  "initial_App =
     \<lparr>sites = [], logs = [], isSearching = False, isAnalyzing = False,
      isAutonomous = False, searchQuery = ''situs slot gacor terbaru 2024'',
      isCopied = False, autoCycleCount = 0, nextCycleCountdown = 0\<rparr>"

text \<open>
  What the asynchronous body of \<open>handleDiscovery\<close> still holds after its first
  \<open>await\<close>: the values of the render in which it was called.
\<close>

record Closure =
  cl_queryToUse :: string
  cl_knownPatterns :: "string list"
  cl_isAutonomous :: bool

datatype pending = Waiting Closure | Calling Closure

record Config =
  app :: App
  pending :: "pending option"

definition initial_Config :: Config where
  "initial_Config = \<lparr>app = initial_App, pending = None\<rparr>"

definition startCountdown :: "App \<Rightarrow> App" where
  "startCountdown a = a\<lparr>nextCycleCountdown := 15\<rparr>"

text \<open>
  \<open>handleDiscovery\<close>, lines 28 to 42: from the call to the first \<open>await\<close>. The
  argument is absent for the button and present for the autonomous effect;
  \<open>customQuery || searchQuery\<close> also falls back on an empty string. \<open>now\<close> is the
  clock reading that the log entries of this stretch of code carry.
\<close>

definition handleDiscovery_enter :: "string \<Rightarrow> string option \<Rightarrow> Config \<Rightarrow> Config" where
  "handleDiscovery_enter now customQuery c =
     (let a = app c;
          queryToUse = (case customQuery of
                          None \<Rightarrow> searchQuery a
                        | Some q \<Rightarrow> if q = [] then searchQuery a else q)
      in if trim queryToUse = [] \<or> isSearching a then c
         else
           (let knownPatterns = map normalized_name (sites a);
                l1 = addLog now ''Analyzing current registry for existing patterns...'' Info
                       (logs a);
                l2 = (if length knownPatterns > 0
                      then addLog now (''Knowledge base primed with ''
                             @ string_of_nat (length knownPatterns) @ '' existing entries.'')
                             Success l1
                      else l1)
            in \<lparr>app = a\<lparr>isSearching := True, isAnalyzing := True, logs := l2\<rparr>,
                pending = Some (Waiting \<lparr>cl_queryToUse = queryToUse,
                                         cl_knownPatterns = knownPatterns,
                                         cl_isAutonomous = isAutonomous a\<rparr>)\<rparr>))"

text \<open>Lines 43 to 49: after the one-second wait, up to the awaited service call.\<close>

definition handleDiscovery_search :: "string \<Rightarrow> Closure \<Rightarrow> Config \<Rightarrow> Config" where
  "handleDiscovery_search now cl c =
     \<lparr>app = (app c)\<lparr>isAnalyzing := False,
                      logs := addLog now (''Initiating context-aware search for: ''
                                @ [CHR 0x22] @ cl_queryToUse cl @ [CHR 0x22]) Info
                                (logs (app c))\<rparr>,
      pending = Some (Calling cl)\<rparr>"

text \<open>
  Lines 49 to 80: what happens when the awaited \<open>performDiscovery\<close> settles, with the
  rest of the \<open>try\<close> block, the \<open>catch\<close> clause and the \<open>finally\<close> clause. The
  \<open>isAutonomous\<close> that lines 70 and 77 read is the constant of the render in which
  \<open>handleDiscovery\<close> was called, \<open>cl_isAutonomous\<close>. The updater given to \<open>setSites\<close>
  runs when the queued updates are processed, after the synchronous \<open>addLog\<close> of line
  69, so its log entry is the newer of the two.
\<close>

definition handleDiscovery_settle ::
  "string \<Rightarrow> Closure \<Rightarrow> thrown + DiscoveryOutput \<Rightarrow> App \<Rightarrow> App" where
  "handleDiscovery_settle now cl outcome a =
     (case outcome of
        Inr out \<Rightarrow>
          (let l1 = (if length (out_sources out) > 0
                     then addLog now (''Successfully indexed ''
                            @ string_of_nat (length (out_sources out)) @ '' public sources.'')
                            Success (logs a)
                     else logs a);
               prev = sites a;
               unique = mergeSites (out_sites out) prev;
               newCount = int (length unique) - int (length prev);
               l2 = addLog now ''Discovery cycle complete.'' Success l1;
               l3 = (if newCount > 0
                     then addLog now (''Learned '' @ string_of_nat (nat newCount)
                            @ '' new unique site signatures.'') Success l2
                     else addLog now ''No new unique signatures found in this cycle.''
                            Warning l2);
               a1 = a\<lparr>sites := unique, logs := l3\<rparr>;
               a2 = (if cl_isAutonomous cl
                     then startCountdown (a1\<lparr>autoCycleCount := autoCycleCount a1 + 1\<rparr>)
                     else a1)
           in a2\<lparr>isSearching := False\<rparr>)
      | Inl err \<Rightarrow>
          (let a1 = a\<lparr>logs := addLog now (''Error during discovery: ''
                                  @ (case err of
                                       ErrorObject m \<Rightarrow> m
                                     | NotAnError \<Rightarrow> ''Unknown error''))
                                  Error (logs a)\<rparr>;
               a2 = (if cl_isAutonomous cl then startCountdown a1 else a1)
           in a2\<lparr>isSearching := False\<rparr>))"

text \<open>
  The guard of the autonomous effect (line 89) and the queries it builds from the
  \<open>site_name\<close> of the record it picked.
\<close>

definition autonomous_guard :: "App \<Rightarrow> bool" where
  "autonomous_guard a = (isAutonomous a \<and> \<not> isSearching a \<and> nextCycleCountdown a = 0)"

definition strategies :: "string \<Rightarrow> string list" where
  "strategies name =
     [''link alternatif '' @ name,
      ''situs serupa '' @ name,
      ''daftar agen '' @ before_first_dot name,
      ''promo terbaru '' @ name]"

text \<open>Lines 103 and 104: the log entry of the effect and its call of \<open>handleDiscovery\<close>.\<close>

definition autonomous_trigger :: "string \<Rightarrow> string \<Rightarrow> Config \<Rightarrow> Config" where
  "autonomous_trigger now nextQuery c =
     handleDiscovery_enter now (Some nextQuery)
       (c\<lparr>app := (app c)\<lparr>logs := addLog now (''Autonomous trigger: Evolving search based on ''
                                        @ [CHR 0x22] @ nextQuery @ [CHR 0x22]) Info
                                        (logs (app c))\<rparr>\<rparr>)"

text \<open>
  The countdown effect (lines 109 to 116) keeps an interval timer installed exactly
  while its guard holds; each firing of the timer decrements the countdown.
\<close>

definition countdown_timer :: "App \<Rightarrow> bool" where
  "countdown_timer a = (isAutonomous a \<and> nextCycleCountdown a > 0)"

definition tick :: "App \<Rightarrow> App" where
  "tick a = a\<lparr>nextCycleCountdown := nextCycleCountdown a - 1\<rparr>"

text \<open>The click handler of the Auto Mode switch (lines 223 to 230).\<close>

definition switchAutonomous :: "string \<Rightarrow> App \<Rightarrow> App" where
  "switchAutonomous now a =
     a\<lparr>isAutonomous := \<not> isAutonomous a,
       logs := (if \<not> isAutonomous a
                then addLog now
                       ''Autonomous Mode ACTIVATED. Agent will now evolve self-queries.''
                       Warning (logs a)
                else addLog now ''Autonomous Mode DEACTIVATED.'' Info (logs a))\<rparr>"

section \<open>The step relation of the dashboard\<close>

text \<open>
  One step is one handler, timer callback, promise continuation or effect body running to
  its next \<open>await\<close>. The two effects are steps that can be taken whenever their guards
  hold; the runtime takes them after a render in which one of their dependencies
  changed, so every behaviour of the dashboard is a run of this relation. In the
  self-query rules \<open>i\<close> and \<open>j\<close> are the values of the two
  \<open>Math.floor(Math.random() * n)\<close> expressions, which lie below \<open>n\<close>. The array of
  strategies is built before one is picked, and \<open>split\<close> exists on a string only: when
  the \<open>site_name\<close> of the chosen record is not a string the effect throws before it
  logs or calls \<open>handleDiscovery\<close>, and there is no step. The clipboard and file export
  handlers change only \<open>logs\<close> and \<open>isCopied\<close> and are left out.
\<close>

datatype label =
    ClickDiscover
  | TypeQuery string
  | SwitchAutonomous
  | ClickToggleStatus string
  | AnalysisDone
  | Settled "thrown + DiscoveryOutput"
  | Tick
  | SelfQuery string

inductive step :: "Config \<Rightarrow> label \<Rightarrow> Config \<Rightarrow> bool" where
  click_discover:
    "step c ClickDiscover (handleDiscovery_enter now None c)"
| type_query:
    "step c (TypeQuery q) (c\<lparr>app := (app c)\<lparr>searchQuery := q\<rparr>\<rparr>)"
| switch_autonomous:
    "step c SwitchAutonomous (c\<lparr>app := switchAutonomous now (app c)\<rparr>)"
| click_toggle_status:
    "step c (ClickToggleStatus i) (c\<lparr>app := (app c)\<lparr>sites := toggleStatus i (sites (app c))\<rparr>\<rparr>)"
| analysis_done:
    "pending c = Some (Waiting cl) \<Longrightarrow> step c AnalysisDone (handleDiscovery_search now cl c)"
| settled:
    "pending c = Some (Calling cl) \<Longrightarrow>
     step c (Settled outcome)
       \<lparr>app = handleDiscovery_settle now cl outcome (app c), pending = None\<rparr>"
| timer_tick:
    "countdown_timer (app c) \<Longrightarrow> step c Tick (c\<lparr>app := tick (app c)\<rparr>)"
| self_query_seed:
    "autonomous_guard (app c) \<Longrightarrow> sites (app c) = [] \<Longrightarrow>
     step c (SelfQuery (searchQuery (app c)))
       (autonomous_trigger now (searchQuery (app c)) c)"
| self_query_evolved:
    "autonomous_guard (app c) \<Longrightarrow> i < length (sites (app c)) \<Longrightarrow>
     site_name (sites (app c) ! i) = Some (JString name) \<Longrightarrow>
     j < length (strategies name) \<Longrightarrow>
     step c (SelfQuery (strategies name ! j))
       (autonomous_trigger now (strategies name ! j) c)"

inductive run :: "Config \<Rightarrow> label list \<Rightarrow> Config \<Rightarrow> bool" where
  run_nil: "run c [] c"
| run_cons: "step c l c' \<Longrightarrow> run c' ls c'' \<Longrightarrow> run c (l # ls) c''"

text \<open>
  The two ways in which the registry is ever written, as operations on the list alone.
\<close>

datatype registry_op = Merge "GamblingSite list" | Toggle string

fun apply_op :: "GamblingSite list \<Rightarrow> registry_op \<Rightarrow> GamblingSite list" where
  "apply_op prev (Merge newSites) = mergeSites newSites prev"
| "apply_op prev (Toggle i) = toggleStatus i prev"

definition apply_ops :: "registry_op list \<Rightarrow> GamblingSite list" where
  "apply_ops ops = foldl apply_op [] ops"

section \<open>Sample records\<close>

text \<open>A site record with the given id, name and status, for instantiating the theorems.\<close>

definition sample_site :: "string \<Rightarrow> string \<Rightarrow> SiteStatus \<Rightarrow> GamblingSite" where
  "sample_site i n st =
     \<lparr>site_id = i, site_name = Some (JString n), normalized_name = n, first_seen = ''t0'',
      last_seen = ''t0'', confidence_score = Some (JNumber 1), status = st, source_count = 1,
      sources = []\<rparr>"

text \<open>A response of the grounding service, its text and a parser that accepts that text.\<close>

definition quoted :: "string \<Rightarrow> string" where
  "quoted s = CHR 0x22 # s @ [CHR 0x22]"

definition sample_text :: string where
  "sample_text =
     ''{'' @ quoted ''extracted_sites'' @ '':[{'' @ quoted ''site_name'' @ '':''
       @ quoted ''Slot-GACOR 88.Com'' @ '','' @ quoted ''normalized_name'' @ '':''
       @ quoted ''Slot-GACOR 88.Com'' @ '','' @ quoted ''confidence_score'' @ '':0.9}]}''"

definition sample_element :: json where
  "sample_element =
     JObject [(''site_name'', JString ''Slot-GACOR 88.Com''),
              (''normalized_name'', JString ''Slot-GACOR 88.Com''),
              (''confidence_score'', JNumber (9 / 10))]"

definition sample_parse :: "string \<Rightarrow> json option" where
  "sample_parse t =
     (if t = sample_text then Some (JObject [(''extracted_sites'', JArray [sample_element])])
      else if t = ''{}'' then Some (JObject [])
      else if t = ''null'' then Some JNull
      else None)"

definition sample_message :: "type_error \<Rightarrow> string" where
  "sample_message e =
     (case e of
        ReadOfNull p \<Rightarrow> ''Cannot read properties of null (reading '' @ p @ '')''
      | ReadOfUndefined p \<Rightarrow> ''Cannot read properties of undefined (reading '' @ p @ '')''
      | NotAFunction p \<Rightarrow> p @ '' is not a function'')"

definition sample_response :: "string \<Rightarrow> GenerateContentResponse" where
  "sample_response t =
     \<lparr>candidates = Some [\<lparr>groundingMetadata = Some \<lparr>groundingChunks = Some
        [\<lparr>web = Some \<lparr>uri = Some ''https://example.org/a''\<rparr>\<rparr>,
         \<lparr>web = None\<rparr>,
         \<lparr>web = Some \<lparr>uri = Some ''''\<rparr>\<rparr>]\<rparr>\<rparr>],
      response_text = t\<rparr>"

definition sample_generateContent ::
  "string \<Rightarrow> string \<Rightarrow> string list \<Rightarrow> thrown + GenerateContentResponse" where
  "sample_generateContent t query known = Inr (sample_response t)"

text \<open>Configurations along runs of the dashboard.\<close>

definition sample_closure :: Closure where
  "sample_closure =
     \<lparr>cl_queryToUse = ''situs slot gacor terbaru 2024'', cl_knownPatterns = [],
      cl_isAutonomous = False\<rparr>"

definition sample_entered :: Config where
  "sample_entered = handleDiscovery_enter ''12:00:00'' None initial_Config"

definition sample_searching :: Config where
  "sample_searching = handleDiscovery_search ''12:00:01'' sample_closure sample_entered"

definition sample_settled :: "thrown + DiscoveryOutput \<Rightarrow> Config" where
  "sample_settled outcome =
     \<lparr>app = handleDiscovery_settle ''12:00:02'' sample_closure outcome (app sample_searching),
      pending = None\<rparr>"

definition sample_on :: Config where
  "sample_on = initial_Config\<lparr>app := switchAutonomous ''12:00:00'' (app initial_Config)\<rparr>"

definition sample_auto :: Config where
  "sample_auto = autonomous_trigger ''12:00:00'' (searchQuery (app sample_on)) sample_on"

definition sample_off :: Config where
  "sample_off = sample_auto\<lparr>app := switchAutonomous ''12:00:01'' (app sample_auto)\<rparr>"

definition sample_auto_closure :: Closure where
  "sample_auto_closure =
     \<lparr>cl_queryToUse = ''situs slot gacor terbaru 2024'', cl_knownPatterns = [],
      cl_isAutonomous = True\<rparr>"

definition sample_late_on :: Config where
  "sample_late_on = sample_entered\<lparr>app := switchAutonomous ''12:00:01'' (app sample_entered)\<rparr>"

definition sample_late_on_end :: Config where
  "sample_late_on_end =
     \<lparr>app = handleDiscovery_settle ''12:00:03'' sample_closure
              (Inl (ErrorObject ''quota exceeded''))
              (app (handleDiscovery_search ''12:00:02'' sample_closure sample_late_on)),
      pending = None\<rparr>"

definition sample_off_end :: Config where
  "sample_off_end =
     \<lparr>app = handleDiscovery_settle ''12:00:03'' sample_auto_closure (Inl NotAnError)
              (app (handleDiscovery_search ''12:00:02'' sample_auto_closure sample_off)),
      pending = None\<rparr>"

section \<open>The log stream\<close>

lemma addLog_length: "length (addLog now msg ty prev) = min 50 (Suc (length prev))"
  by (simp add: addLog_def)

text \<open>
  Claim C10. Every call of \<open>addLog\<close> puts exactly one new entry, with the given message
  and type, at the front of the log stream; the entries behind it are the previous ones
  in their order, cut after the 49 newest, so the stream never holds more than 50
  entries and what is lost is lost at the oldest end.
\<close>

theorem addLog_bounded_newest_first:
  "addLog now msg ty prev =
     \<lparr>timestamp = now, message = msg, log_type = ty\<rparr> # take 49 prev
   \<and> message (hd (addLog now msg ty prev)) = msg
   \<and> log_type (hd (addLog now msg ty prev)) = ty
   \<and> length (addLog now msg ty prev) \<le> 50
   \<and> length (addLog now msg ty prev) = min 50 (Suc (length prev))"
  by (simp add: addLog_def)

section \<open>Facts about the insertion-ordered Map\<close>

lemma keys_map_set:
  "map fst (map_set m k v) = (if k \<in> fst ` set m then map fst m else map fst m @ [k])"
  by (induction m) (force split: if_splits)+

lemma map_of_map_set: "map_of (map_set m k v) = (map_of m)(k \<mapsto> v)"
  by (induction m) (auto simp: fun_eq_iff)

lemma map_set_fresh: "k \<notin> fst ` set m \<Longrightarrow> map_set m k v = m @ [(k, v)]"
  by (induction m) auto

lemma set_map_set: "set (map_set m k v) \<subseteq> insert (k, v) (set m)"
  by (induction m) (auto split: if_splits)

lemma map_set_all_Nil: "map_set_all m [] = m"
  by (simp add: map_set_all_def)

lemma map_set_all_Cons: "map_set_all m ((k, v) # es) = map_set_all (map_set m k v) es"
  by (simp add: map_set_all_def)

lemma map_set_all_append:
  "map_set_all m (xs @ ys) = map_set_all (map_set_all m xs) ys"
  by (simp add: map_set_all_def)

lemma distinct_map_set_all:
  "distinct (map fst m) \<Longrightarrow> distinct (map fst (map_set_all m es))"
proof (induction es arbitrary: m)
  case Nil
  then show ?case by (simp add: map_set_all_Nil)
next
  case (Cons e es)
  obtain k v where e: "e = (k, v)" by (cases e)
  have "distinct (map fst (map_set m k v))"
    using Cons.prems by (simp add: keys_map_set)
  then show ?case
    unfolding e map_set_all_Cons by (rule Cons.IH)
qed

lemma keys_set_map_set_all:
  "fst ` set (map_set_all m es) = fst ` set m \<union> fst ` set es"
proof (induction es arbitrary: m)
  case Nil
  then show ?case by (simp add: map_set_all_Nil)
next
  case (Cons e es)
  obtain k v where e: "e = (k, v)" by (cases e)
  have "fst ` set (map_set m k v) = insert k (fst ` set m)"
    using keys_map_set [of m k v] by (metis (no_types, lifting) insert_absorb list.set_map set_append list.simps(15) Un_insert_right sup_bot.right_neutral empty_set)
  then show ?case
    unfolding e map_set_all_Cons Cons.IH by auto
qed

lemma set_map_set_all: "set (map_set_all m es) \<subseteq> set m \<union> set es"
proof (induction es arbitrary: m)
  case Nil
  then show ?case by (simp add: map_set_all_Nil)
next
  case (Cons e es)
  obtain k v where e: "e = (k, v)" by (cases e)
  show ?case
    unfolding e map_set_all_Cons using Cons.IH [of "map_set m k v"] set_map_set [of m k v]
    by auto
qed

lemma map_of_map_set_all:
  "map_of (map_set_all m es) = map_of m ++ map_of (rev es)"
proof (induction es arbitrary: m)
  case Nil
  then show ?case by (simp add: map_set_all_Nil)
next
  case (Cons e es)
  obtain k v where e: "e = (k, v)" by (cases e)
  show ?case
    unfolding e map_set_all_Cons Cons.IH map_of_map_set
    by (simp add: map_of_append fun_eq_iff map_add_def split: option.splits)
qed

lemma map_set_all_fresh:
  "distinct (map fst es) \<Longrightarrow> fst ` set m \<inter> fst ` set es = {} \<Longrightarrow> map_set_all m es = m @ es"
proof (induction es arbitrary: m)
  case Nil
  then show ?case by (simp add: map_set_all_Nil)
next
  case (Cons e es)
  obtain k v where e: "e = (k, v)" by (cases e)
  have fresh: "k \<notin> fst ` set m" using Cons.prems(2) by (auto simp: e)
  have "map_set_all (m @ [(k, v)]) es = (m @ [(k, v)]) @ es"
  proof (rule Cons.IH)
    show "distinct (map fst es)" using Cons.prems(1) by simp
    show "fst ` set (m @ [(k, v)]) \<inter> fst ` set es = {}"
      using Cons.prems by (auto simp: e)
  qed
  then show ?case
    unfolding e map_set_all_Cons by (simp add: map_set_fresh [OF fresh])
qed

lemma keys_map_set_all_subset:
  "fst ` set es \<subseteq> fst ` set m \<Longrightarrow> map fst (map_set_all m es) = map fst m"
proof (induction es arbitrary: m)
  case Nil
  then show ?case by (simp add: map_set_all_Nil)
next
  case (Cons e es)
  obtain k v where e: "e = (k, v)" by (cases e)
  have k: "k \<in> fst ` set m" using Cons.prems by (auto simp: e)
  then have same: "map fst (map_set m k v) = map fst m" by (simp add: keys_map_set)
  then have "fst ` set (map_set m k v) = fst ` set m" by (metis list.set_map)
  then have "map fst (map_set_all (map_set m k v) es) = map fst (map_set m k v)"
    using Cons.prems by (intro Cons.IH) (auto simp: e)
  then show ?case unfolding e map_set_all_Cons by (simp add: same)
qed

lemma length_map_set: "length m \<le> length (map_set m k v)"
  by (induction m) auto

lemma take_keys_map_set: "take (length m) (map fst (map_set m k v)) = map fst m"
  by (simp add: keys_map_set)

lemma take_keys_map_set_all:
  "length m \<le> length (map_set_all m es) \<and> take (length m) (map fst (map_set_all m es)) = map fst m"
proof (induction es arbitrary: m)
  case Nil
  then show ?case by (simp add: map_set_all_Nil)
next
  case (Cons e es)
  obtain k v where e: "e = (k, v)" by (cases e)
  let ?m1 = "map_set m k v"
  let ?M = "map_set_all ?m1 es"
  have ih: "length ?m1 \<le> length ?M" "take (length ?m1) (map fst ?M) = map fst ?m1"
    using Cons.IH [of ?m1] by simp_all
  have le: "length m \<le> length ?m1" by (rule length_map_set)
  have "take (length m) (map fst ?M) = take (length m) (take (length ?m1) (map fst ?M))"
    using le by (simp add: min_def)
  also have "\<dots> = take (length m) (map fst ?m1)" by (simp only: ih(2))
  also have "\<dots> = map fst m" by (rule take_keys_map_set)
  finally show ?case unfolding e map_set_all_Cons using le ih(1) by simp
qed

lemma values_by_lookup:
  assumes "distinct (map fst zs)"
  shows "map snd zs = map (\<lambda>k. the (map_of zs k)) (map fst zs)"
proof -
  have "\<And>p. p \<in> set zs \<Longrightarrow> the (map_of zs (fst p)) = snd p"
  proof -
    fix p assume "p \<in> set zs"
    then have "(fst p, snd p) \<in> set zs" by simp
    then have "map_of zs (fst p) = Some (snd p)"
      using assms by (rule map_of_is_SomeI [rotated])
    then show "the (map_of zs (fst p)) = snd p" by simp
  qed
  then show ?thesis by (simp add: comp_def)
qed

lemma alist_eqI:
  assumes "map fst xs = map fst ys" and "distinct (map fst xs)" and "map_of xs = map_of ys"
  shows "xs = ys"
proof -
  have "map snd xs = map (\<lambda>k. the (map_of xs k)) (map fst xs)"
    using assms(2) by (rule values_by_lookup)
  also have "\<dots> = map (\<lambda>k. the (map_of ys k)) (map fst ys)"
    by (simp only: assms(1) assms(3))
  also have "\<dots> = map snd ys"
    using assms(1,2) by (simp only: values_by_lookup [symmetric])
  finally have "zip (map fst xs) (map snd xs) = zip (map fst ys) (map snd ys)"
    by (simp only: assms(1))
  then show ?thesis by (simp only: zip_map_fst_snd)
qed

lemma map_of_rev_distinct:
  "distinct (map fst xs) \<Longrightarrow> map_of (rev xs) = map_of xs"
proof (induction xs)
  case Nil
  then show ?case by simp
next
  case (Cons x xs)
  have notin: "fst x \<notin> fst ` set xs" using Cons.prems by simp
  then have none: "map_of xs (fst x) = None" by (simp add: map_of_eq_None_iff)
  have "map_of (rev (x # xs)) = map_of [x] ++ map_of (rev xs)"
    by (simp add: map_of_append)
  also have "\<dots> = map_of [x] ++ map_of xs" using Cons by simp
  also have "\<dots> = map_of (x # xs)"
    using none by (auto simp: fun_eq_iff map_add_def split: option.splits)
  finally show ?case .
qed

lemma map_set_all_same_keys:
  assumes "distinct (map fst n)" and "map fst n' = map fst n"
  shows "map_set_all n n' = n'"
proof (rule alist_eqI)
  have sub: "fst ` set n' \<subseteq> fst ` set n" using assms(2) by (metis list.set_map order_refl)
  show keys: "map fst (map_set_all n n') = map fst n'"
    using keys_map_set_all_subset [OF sub] assms(2) by simp
  show "distinct (map fst (map_set_all n n'))" using keys assms by simp
  have d': "distinct (map fst n')" using assms by simp
  have dom: "dom (map_of n) = dom (map_of n')"
    using assms(2) by (metis dom_map_of_conv_image_fst list.set_map)
  have "map_of (map_set_all n n') = map_of n ++ map_of n'"
    by (simp add: map_of_map_set_all map_of_rev_distinct [OF d'])
  also have "\<dots> = map_of n'"
    using dom by (auto simp: fun_eq_iff map_add_def split: option.splits)
  finally show "map_of (map_set_all n n') = map_of n'" .
qed

lemma map_set_all_again:
  assumes "distinct (map fst n)"
  shows "map_set_all n (map_set_all n p) = map_set_all n p"
proof -
  let ?M = "map_set_all n p"
  let ?a = "take (length n) ?M" and ?b = "drop (length n) ?M"
  have dM: "distinct (map fst ?M)" using assms by (rule distinct_map_set_all)
  have split: "?M = ?a @ ?b" by simp
  have ka: "map fst ?a = map fst n"
    using take_keys_map_set_all [of n p] by (simp add: take_map)
  have dab: "distinct (map fst (?a @ ?b))" using dM by simp
  have "map_set_all n ?M = map_set_all n (?a @ ?b)" by simp
  also have "\<dots> = map_set_all (map_set_all n ?a) ?b" by (rule map_set_all_append)
  also have "map_set_all n ?a = ?a" using assms ka by (rule map_set_all_same_keys)
  also have "map_set_all ?a ?b = ?a @ ?b"
  proof (rule map_set_all_fresh)
    show "distinct (map fst ?b)"
      using dab unfolding map_append distinct_append by blast
    show "fst ` set ?a \<inter> fst ` set ?b = {}"
      using dab unfolding map_append distinct_append list.set_map by blast
  qed
  finally show ?thesis by simp
qed

lemma keyed_append: "keyed (xs @ ys) = keyed xs @ keyed ys"
  by (simp add: keyed_def)

lemma keys_keyed: "map fst (keyed xs) = map normalized_name xs"
  by (simp add: keyed_def comp_def)

lemma values_keyed: "map snd (keyed xs) = xs"
  by (simp add: keyed_def comp_def)

lemma new_Map_self_keyed:
  "p \<in> set (new_Map (keyed xs)) \<Longrightarrow> fst p = normalized_name (snd p)"
  using set_map_set_all [of "[]" "keyed xs"] by (auto simp: new_Map_def keyed_def)

lemma keyed_values_new_Map: "keyed (map_values (new_Map (keyed xs))) = new_Map (keyed xs)"
proof -
  have "map (\<lambda>p. (normalized_name (snd p), snd p)) (new_Map (keyed xs)) = map (\<lambda>p. p) (new_Map (keyed xs))"
    by (rule map_cong [OF refl]) (simp add: new_Map_self_keyed [symmetric])
  then show ?thesis by (simp add: keyed_def map_values_def comp_def)
qed

lemma distinct_new_Map: "distinct (map fst (new_Map es))"
  unfolding new_Map_def by (rule distinct_map_set_all) simp

lemma mergeSites_alt: "mergeSites newSites prev = map_values (new_Map (keyed (newSites @ prev)))"
  by (simp add: mergeSites_def)

lemma keys_mergeSites:
  "map normalized_name (mergeSites newSites prev) = map fst (new_Map (keyed (newSites @ prev)))"
  using keys_keyed [of "map_values (new_Map (keyed (newSites @ prev)))"]
  by (simp only: mergeSites_alt keyed_values_new_Map)

lemma distinct_mergeSites: "distinct (map normalized_name (mergeSites newSites prev))"
  by (simp only: keys_mergeSites distinct_new_Map)

lemma keyset_mergeSites:
  "set (map normalized_name (mergeSites newSites prev))
     = set (map normalized_name newSites) \<union> set (map normalized_name prev)"
proof -
  have "set (map fst (new_Map (keyed (newSites @ prev)))) = fst ` set (keyed (newSites @ prev))"
    using keys_set_map_set_all [of "[]" "keyed (newSites @ prev)"] by (simp add: new_Map_def)
  also have "\<dots> = set (map normalized_name (newSites @ prev))"
    by (simp only: keys_keyed [symmetric] list.set_map)
  finally show ?thesis by (simp only: keys_mergeSites map_append set_append)
qed

lemma merge_again: "mergeSites newSites (mergeSites newSites prev) = mergeSites newSites prev"
proof -
  let ?n = "map_set_all [] (keyed newSites)"
  let ?M = "new_Map (keyed (newSites @ prev))"
  have M: "?M = map_set_all ?n (keyed prev)"
    by (simp add: new_Map_def keyed_append map_set_all_append)
  have dn: "distinct (map fst ?n)" by (rule distinct_map_set_all) simp
  have "new_Map (keyed (newSites @ map_values ?M)) = map_set_all ?n (keyed (map_values ?M))"
    by (simp add: new_Map_def keyed_append map_set_all_append)
  also have "\<dots> = map_set_all ?n ?M" by (simp only: keyed_values_new_Map)
  also have "\<dots> = ?M" unfolding M using dn by (rule map_set_all_again)
  finally show ?thesis by (simp only: mergeSites_alt)
qed

lemma mergeSites_Nil: 
  assumes "distinct (map normalized_name prev)"
  shows "mergeSites [] prev = prev"
proof -
  have "map_set_all [] (keyed prev) = [] @ keyed prev"
    by (rule map_set_all_fresh) (simp_all add: keys_keyed assms)
  then show ?thesis by (simp add: mergeSites_alt new_Map_def map_values_def values_keyed)
qed

lemma lookup_mergeSites:
  assumes "r \<in> set (mergeSites newSites prev)"
  shows "(map_of (rev (keyed newSites)) ++ map_of (rev (keyed prev))) (normalized_name r) = Some r"
proof -
  let ?M = "new_Map (keyed (newSites @ prev))"
  from assms obtain p where p: "p \<in> set ?M" "snd p = r"
    by (auto simp: mergeSites_alt map_values_def)
  then have "(normalized_name r, r) \<in> set ?M"
    using new_Map_self_keyed [OF p(1)] by (metis prod.collapse)
  then have "map_of ?M (normalized_name r) = Some r"
    using distinct_new_Map by (rule map_of_is_SomeI [rotated])
  then show ?thesis
    by (simp add: new_Map_def map_of_map_set_all keyed_append map_of_append)
qed

lemma lookup_rev_keyed:
  "map_of (rev (keyed xs)) k =
     (if k \<in> set (map normalized_name xs)
      then Some (last (filter (\<lambda>p. normalized_name p = k) xs)) else None)"
proof (induction xs rule: rev_induct)
  case Nil
  then show ?case by (simp add: keyed_def)
next
  case (snoc x xs)
  have "rev (keyed (xs @ [x])) = (normalized_name x, x) # rev (keyed xs)"
    by (simp add: keyed_def)
  then show ?case using snoc by auto
qed

lemma mergeSites_from_prev:
  assumes "r \<in> set (mergeSites newSites prev)"
    and "normalized_name r \<in> set (map normalized_name prev)"
  shows "r = last (filter (\<lambda>p. normalized_name p = normalized_name r) prev)"
  using lookup_mergeSites [OF assms(1)] assms(2)
  by (simp add: map_add_def lookup_rev_keyed split: option.splits if_splits)

lemma mergeSites_retains:
  assumes "distinct (map normalized_name prev)" and "r \<in> set prev"
  shows "r \<in> set (mergeSites newSites prev)"
proof -
  let ?k = "normalized_name r"
  have "?k \<in> set (map normalized_name newSites) \<union> set (map normalized_name prev)"
    using assms(2) by simp
  then have "?k \<in> set (map normalized_name (mergeSites newSites prev))"
    unfolding keyset_mergeSites .
  then obtain r' where r': "r' \<in> set (mergeSites newSites prev)" "normalized_name r' = ?k"
    by auto
  have inprev: "?k \<in> set (map normalized_name prev)" using assms(2) by simp
  have "r' = last (filter (\<lambda>p. normalized_name p = ?k) prev)"
    using mergeSites_from_prev [OF r'(1)] inprev by (simp add: r'(2))
  moreover have "filter (\<lambda>p. normalized_name p = ?k) prev = [r]"
    using assms
  proof (induction prev)
    case Nil
    then show ?case by simp
  next
    case (Cons a prev)
    show ?case
    proof (cases "a = r")
      case True
      have "\<forall>p\<in>set prev. normalized_name p \<noteq> normalized_name r"
        using Cons.prems(1) True by (auto simp: image_iff)
      then have "filter (\<lambda>p. normalized_name p = normalized_name r) prev = []"
        by (simp add: filter_empty_conv)
      then show ?thesis using True by simp
    next
      case False
      then have "r \<in> set prev" using Cons.prems(2) by simp
      moreover have "normalized_name a \<noteq> normalized_name r"
        using Cons.prems(1) calculation by (auto simp: image_iff)
      ultimately show ?thesis using Cons by simp
    qed
  qed
  ultimately show ?thesis using r'(1) by simp
qed

lemma length_mergeSites:
  assumes "distinct (map normalized_name prev)"
  shows "length prev \<le> length (mergeSites newSites prev)"
proof -
  have "length prev = card (set (map normalized_name prev))"
    using distinct_card [OF assms] by simp
  also have "\<dots> \<le> card (set (map normalized_name (mergeSites newSites prev)))"
    unfolding keyset_mergeSites by (rule card_mono) simp_all
  also have "\<dots> = length (mergeSites newSites prev)"
    using distinct_card [OF distinct_mergeSites [of newSites prev]] by simp
  finally show ?thesis .
qed

lemma keys_toggleStatus: "map normalized_name (toggleStatus i prev) = map normalized_name prev"
  by (simp add: toggleStatus_def comp_def Let_def)

lemma distinct_apply_op:
  "distinct (map normalized_name prev) \<Longrightarrow> distinct (map normalized_name (apply_op prev op))"
  by (cases op) (simp_all add: distinct_mergeSites keys_toggleStatus)

lemma distinct_foldl_apply_op:
  "distinct (map normalized_name prev) \<Longrightarrow> distinct (map normalized_name (foldl apply_op prev ops))"
  by (induction ops arbitrary: prev) (simp_all add: distinct_apply_op)

section \<open>The registry\<close>

lemmas eval_merge =
  mergeSites_def new_Map_def map_set_all_def keyed_def map_values_def sample_site_def

text \<open>
  Claim C1. A discovery cycle merges by normalized key and the record that the registry
  already holds wins. The merged list has one record per \<open>normalized_name\<close>, its keys
  are those of the new sites and of the registry together, and a merged record whose key
  was present in the registry is the registry's record for that key (the one nearest the
  end of the list, which is the earliest seen, since new records are put in front), never
  a newly returned one. When the registry held one record per key, all of its records
  are still there.
\<close>

theorem mergeSites_keeps_registry_record:
  "distinct (map normalized_name (mergeSites newSites prev))
   \<and> set (map normalized_name (mergeSites newSites prev))
       = set (map normalized_name newSites) \<union> set (map normalized_name prev)
   \<and> (\<forall>r\<in>set (mergeSites newSites prev).
         normalized_name r \<in> set (map normalized_name prev) \<longrightarrow>
         r = last (filter (\<lambda>p. normalized_name p = normalized_name r) prev))
   \<and> (distinct (map normalized_name prev) \<longrightarrow> set prev \<subseteq> set (mergeSites newSites prev))"
  using distinct_mergeSites keyset_mergeSites mergeSites_from_prev mergeSites_retains
  by blast

theorem mergeSites_keeps_registry_record_witness:
  "distinct (map normalized_name [sample_site ''p1'' ''alpha'' FALSE_POSITIVE])
   \<and> mergeSites [sample_site ''n1'' ''alpha'' ACTIVE, sample_site ''n2'' ''beta'' ACTIVE]
        [sample_site ''p1'' ''alpha'' FALSE_POSITIVE]
       = [sample_site ''p1'' ''alpha'' FALSE_POSITIVE, sample_site ''n2'' ''beta'' ACTIVE]
   \<and> set [sample_site ''p1'' ''alpha'' FALSE_POSITIVE]
       \<subseteq> set (mergeSites [sample_site ''n1'' ''alpha'' ACTIVE, sample_site ''n2'' ''beta'' ACTIVE]
            [sample_site ''p1'' ''alpha'' FALSE_POSITIVE])"
  using mergeSites_keeps_registry_record
    [of "[sample_site ''n1'' ''alpha'' ACTIVE, sample_site ''n2'' ''beta'' ACTIVE]"
        "[sample_site ''p1'' ''alpha'' FALSE_POSITIVE]"]
  by (simp add: eval_merge)

text \<open>
  Claim C3. Deduplication by normalized key is idempotent: merging the same new sites
  into the result of a merge gives that result again, merging nothing into the result of
  a merge gives it again, and merging nothing into a registry with one record per key
  leaves it as it is.
\<close>

theorem mergeSites_idempotent:
  "mergeSites newSites (mergeSites newSites prev) = mergeSites newSites prev
   \<and> mergeSites [] (mergeSites newSites prev) = mergeSites newSites prev
   \<and> (distinct (map normalized_name prev) \<longrightarrow> mergeSites [] prev = prev)"
  using merge_again mergeSites_Nil distinct_mergeSites by blast

theorem mergeSites_idempotent_witness:
  "distinct (map normalized_name
      [sample_site ''p1'' ''alpha'' ACTIVE, sample_site ''p2'' ''beta'' ACTIVE])
   \<and> mergeSites [] [sample_site ''p1'' ''alpha'' ACTIVE, sample_site ''p2'' ''beta'' ACTIVE]
       = [sample_site ''p1'' ''alpha'' ACTIVE, sample_site ''p2'' ''beta'' ACTIVE]"
  using mergeSites_idempotent
    [of "[]" "[sample_site ''p1'' ''alpha'' ACTIVE, sample_site ''p2'' ''beta'' ACTIVE]"]
  by (simp add: sample_site_def)

lemma sites_settle:
  "sites (handleDiscovery_settle now cl outcome a) =
     (case outcome of Inl e \<Rightarrow> sites a | Inr out \<Rightarrow> mergeSites (out_sites out) (sites a))"
  by (simp add: handleDiscovery_settle_def startCountdown_def Let_def split: sum.splits)

lemma settle_grows:
  assumes "distinct (map normalized_name (sites a))"
  shows "set (sites a) \<subseteq> set (sites (handleDiscovery_settle now cl outcome a))
       \<and> length (sites a) \<le> length (sites (handleDiscovery_settle now cl outcome a))"
proof (cases outcome)
  case (Inl e)
  then show ?thesis by (simp add: sites_settle)
next
  case (Inr out)
  then show ?thesis
    using mergeSites_retains [OF assms] length_mergeSites [OF assms]
    by (auto simp: sites_settle)
qed

text \<open>
  Claim C6. The registry only grows. For a registry with pairwise distinct
  \<open>normalized_name\<close> values, the merged registry has a record for every key that was
  present, still holds every record that was present, and is at least as long; and
  whichever way a discovery cycle ends, with a result or with an error, the registry it
  leaves holds every record it found there and is at least as long.
\<close>

theorem registry_only_grows:
  "(distinct (map normalized_name prev) \<longrightarrow>
      set (map normalized_name prev) \<subseteq> set (map normalized_name (mergeSites newSites prev))
    \<and> set prev \<subseteq> set (mergeSites newSites prev)
    \<and> length prev \<le> length (mergeSites newSites prev))
   \<and> (distinct (map normalized_name (sites a)) \<longrightarrow>
      set (sites a) \<subseteq> set (sites (handleDiscovery_settle now cl outcome a))
    \<and> length (sites a) \<le> length (sites (handleDiscovery_settle now cl outcome a)))"
proof (intro conjI impI)
  assume d: "distinct (map normalized_name prev)"
  show "set (map normalized_name prev) \<subseteq> set (map normalized_name (mergeSites newSites prev))"
    unfolding keyset_mergeSites by blast
  show "set prev \<subseteq> set (mergeSites newSites prev)"
    using mergeSites_retains [OF d] by blast
  show "length prev \<le> length (mergeSites newSites prev)"
    using d by (rule length_mergeSites)
next
  assume d: "distinct (map normalized_name (sites a))"
  show "set (sites a) \<subseteq> set (sites (handleDiscovery_settle now cl outcome a))"
    using settle_grows [OF d] by blast
  show "length (sites a) \<le> length (sites (handleDiscovery_settle now cl outcome a))"
    using settle_grows [OF d] by blast
qed

theorem registry_only_grows_witness:
  "distinct (map normalized_name [sample_site ''p1'' ''alpha'' ACTIVE])
   \<and> length [sample_site ''p1'' ''alpha'' ACTIVE]
       \<le> length (mergeSites [sample_site ''n1'' ''alpha'' ACTIVE, sample_site ''n2'' ''beta'' ACTIVE]
            [sample_site ''p1'' ''alpha'' ACTIVE])
   \<and> sample_site ''p1'' ''alpha'' ACTIVE
       \<in> set (mergeSites [sample_site ''n1'' ''alpha'' ACTIVE, sample_site ''n2'' ''beta'' ACTIVE]
            [sample_site ''p1'' ''alpha'' ACTIVE])
   \<and> distinct (map normalized_name (sites (initial_App\<lparr>sites := [sample_site ''p1'' ''alpha'' ACTIVE]\<rparr>)))
   \<and> length (sites (initial_App\<lparr>sites := [sample_site ''p1'' ''alpha'' ACTIVE]\<rparr>))
       \<le> length (sites (handleDiscovery_settle ''12:00:00''
            \<lparr>cl_queryToUse = ''slot'', cl_knownPatterns = [''alpha''], cl_isAutonomous = False\<rparr>
            (Inr \<lparr>out_sites = [sample_site ''n2'' ''beta'' ACTIVE], out_sources = []\<rparr>)
            (initial_App\<lparr>sites := [sample_site ''p1'' ''alpha'' ACTIVE]\<rparr>)))"
  using registry_only_grows
    [of "[sample_site ''p1'' ''alpha'' ACTIVE]"
        "[sample_site ''n1'' ''alpha'' ACTIVE, sample_site ''n2'' ''beta'' ACTIVE]"
        "initial_App\<lparr>sites := [sample_site ''p1'' ''alpha'' ACTIVE]\<rparr>"
        "''12:00:00''"
        "\<lparr>cl_queryToUse = ''slot'', cl_knownPatterns = [''alpha''], cl_isAutonomous = False\<rparr>"
        "Inr \<lparr>out_sites = [sample_site ''n2'' ''beta'' ACTIVE], out_sources = []\<rparr>"]
  by simp

lemma toggleStatus_twice_elem:
  "status s \<noteq> FLAGGED \<or> site_id s \<noteq> i \<Longrightarrow>
   toggleStatus i (toggleStatus i [s]) = [s]"
  by (cases "status s") (auto simp: toggleStatus_def Let_def)

text \<open>
  Claim C2, as the code has it. \<open>toggleStatus\<close> changes only the records with the given
  id, and only their status: ACTIVE becomes FALSE_POSITIVE, FALSE_POSITIVE becomes ACTIVE
  and FLAGGED becomes ACTIVE. Applied twice to the same id it gives the registry back
  whenever no record with that id is FLAGGED.
\<close>

theorem toggleStatus_flips:
  "length (toggleStatus i prev) = length prev
   \<and> (\<forall>n<length prev.
         (site_id (prev ! n) \<noteq> i \<longrightarrow> toggleStatus i prev ! n = prev ! n)
       \<and> (site_id (prev ! n) = i \<longrightarrow>
            toggleStatus i prev ! n
              = (prev ! n)\<lparr>status := (case status (prev ! n) of
                                         ACTIVE \<Rightarrow> FALSE_POSITIVE
                                       | FALSE_POSITIVE \<Rightarrow> ACTIVE
                                       | FLAGGED \<Rightarrow> ACTIVE)\<rparr>))
   \<and> ((\<forall>s\<in>set prev. site_id s = i \<longrightarrow> status s \<noteq> FLAGGED) \<longrightarrow>
        toggleStatus i (toggleStatus i prev) = prev)"
proof (intro conjI allI impI)
  show "length (toggleStatus i prev) = length prev" by (simp add: toggleStatus_def)
next
  fix n assume "n < length prev" "site_id (prev ! n) \<noteq> i"
  then show "toggleStatus i prev ! n = prev ! n" by (simp add: toggleStatus_def)
next
  fix n assume "n < length prev" "site_id (prev ! n) = i"
  then show "toggleStatus i prev ! n
              = (prev ! n)\<lparr>status := (case status (prev ! n) of
                                         ACTIVE \<Rightarrow> FALSE_POSITIVE
                                       | FALSE_POSITIVE \<Rightarrow> ACTIVE
                                       | FLAGGED \<Rightarrow> ACTIVE)\<rparr>"
    by (cases "status (prev ! n)") (simp_all add: toggleStatus_def Let_def)
next
  assume "\<forall>s\<in>set prev. site_id s = i \<longrightarrow> status s \<noteq> FLAGGED"
  then show "toggleStatus i (toggleStatus i prev) = prev"
  proof (induction prev)
    case Nil
    then show ?case by (simp add: toggleStatus_def)
  next
    case (Cons s prev)
    have "toggleStatus i (toggleStatus i (s # prev))
            = toggleStatus i (toggleStatus i [s]) @ toggleStatus i (toggleStatus i prev)"
      by (simp add: toggleStatus_def)
    also have "toggleStatus i (toggleStatus i [s]) = [s]"
      using Cons.prems by (intro toggleStatus_twice_elem) auto
    also have "toggleStatus i (toggleStatus i prev) = prev"
      using Cons by simp
    finally show ?case by simp
  qed
qed

theorem toggleStatus_flips_witness:
  "filter (\<lambda>s. site_id s = ''a'' \<and> status s = FLAGGED)
      [sample_site ''a'' ''alpha'' ACTIVE, sample_site ''b'' ''beta'' FLAGGED] = []
   \<and> toggleStatus ''a'' [sample_site ''a'' ''alpha'' ACTIVE, sample_site ''b'' ''beta'' FLAGGED]
       = [sample_site ''a'' ''alpha'' FALSE_POSITIVE, sample_site ''b'' ''beta'' FLAGGED]
   \<and> toggleStatus ''a'' (toggleStatus ''a''
        [sample_site ''a'' ''alpha'' ACTIVE, sample_site ''b'' ''beta'' FLAGGED])
       = [sample_site ''a'' ''alpha'' ACTIVE, sample_site ''b'' ''beta'' FLAGGED]"
  using toggleStatus_flips
    [of "''a''" "[sample_site ''a'' ''alpha'' ACTIVE, sample_site ''b'' ''beta'' FLAGGED]"]
  by (simp add: toggleStatus_def sample_site_def)

text \<open>
  Claim C2 as stated fails for the third value of the type: a FLAGGED record is not
  restored by toggling twice, it ends as FALSE_POSITIVE.
\<close>

theorem toggleStatus_twice_counterexample:
  "toggleStatus ''b'' (toggleStatus ''b'' [sample_site ''b'' ''beta'' FLAGGED])
     = [sample_site ''b'' ''beta'' FALSE_POSITIVE]
   \<and> toggleStatus ''b'' (toggleStatus ''b'' [sample_site ''b'' ''beta'' FLAGGED])
     \<noteq> [sample_site ''b'' ''beta'' FLAGGED]"
  by (simp add: toggleStatus_def sample_site_def)

section \<open>The invariant of the registry\<close>

lemma trim_initial_query: "trim ''situs slot gacor terbaru 2024'' \<noteq> []"
  by (simp add: trim_def isWhiteSpace_def)

lemma pending_sample_entered: "pending sample_entered = Some (Waiting sample_closure)"
  by (simp add: sample_entered_def handleDiscovery_enter_def initial_Config_def initial_App_def
      Let_def trim_initial_query sample_closure_def)

lemma pending_sample_searching: "pending sample_searching = Some (Calling sample_closure)"
  by (simp add: sample_searching_def handleDiscovery_search_def)

lemma sample_run:
  "run initial_Config [ClickDiscover, AnalysisDone, Settled outcome] (sample_settled outcome)"
proof -
  have 1: "step initial_Config ClickDiscover sample_entered"
    unfolding sample_entered_def by (rule click_discover)
  have 2: "step sample_entered AnalysisDone sample_searching"
    unfolding sample_searching_def by (rule analysis_done [OF pending_sample_entered])
  have 3: "step sample_searching (Settled outcome) (sample_settled outcome)"
    unfolding sample_settled_def by (rule settled [OF pending_sample_searching])
  show ?thesis by (rule run_cons [OF 1 run_cons [OF 2 run_cons [OF 3 run_nil]]])
qed

lemma sites_enter: "sites (app (handleDiscovery_enter now q c)) = sites (app c)"
  by (simp add: handleDiscovery_enter_def Let_def)

lemma sites_search: "sites (app (handleDiscovery_search now cl c)) = sites (app c)"
  by (simp add: handleDiscovery_search_def)

lemma sites_trigger: "sites (app (autonomous_trigger now q c)) = sites (app c)"
  by (simp add: autonomous_trigger_def sites_enter)

lemma step_keeps_distinct:
  assumes "step c l c'" and "distinct (map normalized_name (sites (app c)))"
  shows "distinct (map normalized_name (sites (app c')))"
  using assms
proof (cases rule: step.cases)
  case (settled cl outcome now)
  then show ?thesis
    using assms(2) by (cases outcome) (simp_all add: sites_settle distinct_mergeSites)
qed (simp_all add: sites_enter sites_search sites_trigger keys_toggleStatus
      switchAutonomous_def tick_def)

lemma run_keeps_distinct:
  "run c ls c' \<Longrightarrow> distinct (map normalized_name (sites (app c))) \<Longrightarrow>
   distinct (map normalized_name (sites (app c')))"
  by (induction rule: run.induct) (auto dest: step_keeps_distinct)

text \<open>
  Claim C7. Uniqueness of the dedup key is an invariant of the registry. Starting from the
  empty list, whatever sequence of merges and status toggles is applied, the records have
  pairwise distinct \<open>normalized_name\<close> values; and the same holds of the registry in
  every configuration that a run of the dashboard reaches from its initial state.
\<close>

theorem registry_keys_distinct:
  "distinct (map normalized_name (apply_ops ops))
   \<and> (run initial_Config ls c \<longrightarrow> distinct (map normalized_name (sites (app c))))"
proof
  show "distinct (map normalized_name (apply_ops ops))"
    unfolding apply_ops_def by (rule distinct_foldl_apply_op) simp
  show "run initial_Config ls c \<longrightarrow> distinct (map normalized_name (sites (app c)))"
    using run_keeps_distinct [of initial_Config ls c]
    by (simp add: initial_Config_def initial_App_def)
qed

lemma sites_sample_settled:
  "sites (app (sample_settled (Inr \<lparr>out_sites = new, out_sources = srcs\<rparr>))) = mergeSites new []"
  by (simp add: sample_settled_def sites_settle sample_searching_def sites_search
      sample_entered_def sites_enter initial_Config_def initial_App_def)

theorem registry_keys_distinct_witness:
  "run initial_Config
     [ClickDiscover, AnalysisDone,
      Settled (Inr \<lparr>out_sites = [sample_site ''n1'' ''alpha'' ACTIVE,
                                  sample_site ''n2'' ''alpha'' ACTIVE,
                                  sample_site ''n3'' ''beta'' ACTIVE],
                    out_sources = []\<rparr>)]
     (sample_settled (Inr \<lparr>out_sites = [sample_site ''n1'' ''alpha'' ACTIVE,
                                        sample_site ''n2'' ''alpha'' ACTIVE,
                                        sample_site ''n3'' ''beta'' ACTIVE],
                          out_sources = []\<rparr>))
   \<and> map normalized_name (sites (app (sample_settled
        (Inr \<lparr>out_sites = [sample_site ''n1'' ''alpha'' ACTIVE,
                            sample_site ''n2'' ''alpha'' ACTIVE,
                            sample_site ''n3'' ''beta'' ACTIVE],
              out_sources = []\<rparr>)))) = [''alpha'', ''beta'']
   \<and> distinct [''alpha'', ''beta'']
   \<and> apply_ops [Merge [sample_site ''n1'' ''alpha'' ACTIVE, sample_site ''n2'' ''alpha'' ACTIVE],
                 Toggle ''n2'']
       = [sample_site ''n2'' ''alpha'' FALSE_POSITIVE]"
  using sample_run
    registry_keys_distinct
      [of "[Merge [sample_site ''n1'' ''alpha'' ACTIVE, sample_site ''n2'' ''alpha'' ACTIVE],
            Toggle ''n2'']"
          "[ClickDiscover, AnalysisDone,
            Settled (Inr \<lparr>out_sites = [sample_site ''n1'' ''alpha'' ACTIVE,
                                  sample_site ''n2'' ''alpha'' ACTIVE,
                                  sample_site ''n3'' ''beta'' ACTIVE],
                    out_sources = []\<rparr>)]"
          "sample_settled (Inr \<lparr>out_sites = [sample_site ''n1'' ''alpha'' ACTIVE,
                                        sample_site ''n2'' ''alpha'' ACTIVE,
                                        sample_site ''n3'' ''beta'' ACTIVE],
                          out_sources = []\<rparr>)"]
  by (simp add: sites_sample_settled apply_ops_def toggleStatus_def eval_merge)

section \<open>The discovery service\<close>

lemma in_az09_iff: "in_az09 c \<longleftrightarrow> c \<in> set ''abcdefghijklmnopqrstuvwxyz0123456789''"
proof
  assume a: "in_az09 c"
  have c: "c = char_of (of_char c :: nat)" by simp
  from a have "(of_char c :: nat) \<in> {97..<123} \<union> {48..<58}"
    by (auto simp: in_az09_def less_eq_char_def)
  also have "{97..<123} \<union> {48..<58} = set ([97..<123] @ [48..<58] :: nat list)"
    by (simp only: set_append set_upt)
  finally have "char_of (of_char c :: nat) \<in> char_of ` set ([97..<123] @ [48..<58] :: nat list)"
    by blast
  also have "char_of ` set ([97..<123] @ [48..<58] :: nat list)
               = set (map char_of ([97..<123] @ [48..<58] :: nat list))"
    by (simp only: set_map)
  also have "map char_of ([97..<123] @ [48..<58] :: nat list)
               = ''abcdefghijklmnopqrstuvwxyz0123456789''"
    by code_simp
  finally show "c \<in> set ''abcdefghijklmnopqrstuvwxyz0123456789''" using c by simp
next
  assume "c \<in> set ''abcdefghijklmnopqrstuvwxyz0123456789''"
  then show "in_az09 c" by (auto simp: in_az09_def less_eq_char_def)
qed

lemma strip_symbols_chars: "set (strip_symbols s) \<subseteq> set ''abcdefghijklmnopqrstuvwxyz0123456789''"
proof
  fix c assume "c \<in> set (strip_symbols s)"
  then have "in_az09 c" by (simp add: strip_symbols_def)
  then show "c \<in> set ''abcdefghijklmnopqrstuvwxyz0123456789''" by (simp only: in_az09_iff)
qed

lemma string_receiver_Inr: "string_receiver v = Inr s \<Longrightarrow> v = Some (JString s)"
  by (auto simp: string_receiver_def split: option.splits json.splits)

lemma array_receiver_Inr: "array_receiver v = Inr xs \<Longrightarrow> v = Some (JArray xs)"
  by (auto simp: array_receiver_def split: option.splits json.splits)

lemma make_site_Inr:
  assumes "make_site ids draws ts srcs (i, site) = Inr g"
  shows "get_prop site ''normalized_name'' = Inr (Some (JString (received_name site)))
       \<and> normalized_name g = strip_symbols (toLowerCase (received_name site))"
proof -
  from assms obtain received s where r: "get_prop site ''normalized_name'' = Inr received"
    and sr: "string_receiver received = Inr s"
    and n: "normalized_name g = strip_symbols (toLowerCase s)"
    by (auto simp: make_site_def split: sum.splits)
  have "received = Some (JString s)" using sr by (rule string_receiver_Inr)
  then have "get_prop site ''normalized_name'' = Inr (Some (JString s))" using r by simp
  then show ?thesis using n by (simp add: received_name_def)
qed

lemma map_throwing_Inr:
  "map_throwing f xs = Inr ys \<Longrightarrow> list_all2 (\<lambda>x y. f x = Inr y) xs ys"
proof (induction xs arbitrary: ys)
  case Nil
  then show ?case by simp
next
  case (Cons x xs)
  then show ?case by (auto split: sum.splits)
qed

lemma performDiscovery_Inr:
  assumes "performDiscovery generateContent JSON_parse typeErrorMessage ids draws ts query
             knownPatterns = Inr out"
  obtains response elements where
    "generateContent query (take 20 knownPatterns) = Inr response"
    "get_prop (case JSON_parse (response_text response) of
                 None \<Rightarrow> JObject [(''extracted_sites'', JArray [])] | Some v \<Rightarrow> v)
       ''extracted_sites'' = Inr (Some (JArray elements))"
    "list_all2 (\<lambda>p g. make_site ids draws ts (grounding_sources response) p = Inr g)
       (zip [0..<length elements] elements) (out_sites out)"
    "out_sources out = grounding_sources response"
proof -
  from assms obtain response where g: "generateContent query (take 20 knownPatterns) = Inr response"
    by (auto simp: performDiscovery_def split: sum.splits)
  let ?result = "case JSON_parse (response_text response) of
                   None \<Rightarrow> JObject [(''extracted_sites'', JArray [])] | Some v \<Rightarrow> v"
  from assms g obtain v elements new_sites where
    v: "get_prop ?result ''extracted_sites'' = Inr v"
    and el: "array_receiver v = Inr elements"
    and m: "map_throwing (make_site ids draws ts (grounding_sources response))
              (zip [0..<length elements] elements) = Inr new_sites"
    and o: "out = \<lparr>out_sites = new_sites, out_sources = grounding_sources response\<rparr>"
    by (auto simp: performDiscovery_def Let_def split: sum.splits)
  have "v = Some (JArray elements)" using el by (rule array_receiver_Inr)
  then have 1: "get_prop ?result ''extracted_sites'' = Inr (Some (JArray elements))"
    using v by simp
  have 2: "list_all2 (\<lambda>p g. make_site ids draws ts (grounding_sources response) p = Inr g)
             (zip [0..<length elements] elements) (out_sites out)"
    using map_throwing_Inr [OF m] by (simp add: o)
  show ?thesis using that [OF g 1 2] by (simp add: o)
qed

lemma names_of_made_sites:
  "list_all2 (\<lambda>p g. make_site ids draws ts srcs p = Inr g) (zip ns xs) gs \<Longrightarrow>
   length ns = length xs \<Longrightarrow>
   (\<forall>x\<in>set xs. get_prop x ''normalized_name'' = Inr (Some (JString (received_name x))))
   \<and> map normalized_name gs = map (\<lambda>x. strip_symbols (toLowerCase (received_name x))) xs"
proof (induction ns xs arbitrary: gs rule: list_induct2')
  case (4 n ns x xs)
  from "4.prems"(1) obtain g gs' where gs: "gs = g # gs'"
    and h: "make_site ids draws ts srcs (n, x) = Inr g"
    and t: "list_all2 (\<lambda>p g. make_site ids draws ts srcs p = Inr g) (zip ns xs) gs'"
    by (auto simp: list_all2_Cons1)
  have "length ns = length xs" using "4.prems"(2) by simp
  then show ?case using "4.IH" [OF t] make_site_Inr [OF h] by (simp add: gs)
qed simp_all

lemma performDiscovery_names:
  assumes g: "generateContent query (take 20 knownPatterns) = Inr response"
    and j: "JSON_parse (response_text response) = Some result"
    and x: "get_prop result ''extracted_sites'' = Inr (Some (JArray xs))"
    and p: "performDiscovery generateContent JSON_parse typeErrorMessage ids draws ts query
              knownPatterns = Inr out"
  shows "(\<forall>x\<in>set xs. get_prop x ''normalized_name'' = Inr (Some (JString (received_name x))))
       \<and> map normalized_name (out_sites out)
           = map (\<lambda>x. strip_symbols (toLowerCase (received_name x))) xs"
proof -
  from p obtain response' elements where
    g': "generateContent query (take 20 knownPatterns) = Inr response'"
    and e: "get_prop (case JSON_parse (response_text response') of
                 None \<Rightarrow> JObject [(''extracted_sites'', JArray [])] | Some v \<Rightarrow> v)
              ''extracted_sites'' = Inr (Some (JArray elements))"
    and l: "list_all2 (\<lambda>p g. make_site ids draws ts (grounding_sources response') p = Inr g)
          (zip [0..<length elements] elements) (out_sites out)"
    by (rule performDiscovery_Inr)
  have "response' = response" using g g' by simp
  then have "elements = xs" using e j x by simp
  then show ?thesis using names_of_made_sites [OF l] by simp
qed

lemma upper_to_lower:
  "map char_toLowerCase ''ABCDEFGHIJKLMNOPQRSTUVWXYZ'' = ''abcdefghijklmnopqrstuvwxyz''"
  by code_simp

lemma lower_kept: "in_az09 c \<Longrightarrow> char_toLowerCase c = c"
  by (auto simp: in_az09_def char_toLowerCase_def less_eq_char_def)


text \<open>
  Claim C5. Every site record that \<open>performDiscovery\<close> returns has a
  \<open>normalized_name\<close> made only of the characters a to z and 0 to 9: it is the name
  received, with every character lowercased and then every character outside the two
  ranges removed, one record per extracted site and in the same order. Lowercasing sends
  each of A to Z to its lowercase letter and leaves a to z and 0 to 9 alone.
\<close>

theorem performDiscovery_normalized_names:
  "(performDiscovery generateContent JSON_parse typeErrorMessage ids draws ts query knownPatterns
      = Inr out \<longrightarrow>
      (\<forall>site\<in>set (out_sites out).
         \<forall>c\<in>set (normalized_name site). c \<in> set ''abcdefghijklmnopqrstuvwxyz0123456789''))
   \<and> (generateContent query (take 20 knownPatterns) = Inr response \<longrightarrow>
       JSON_parse (response_text response) = Some result \<longrightarrow>
       get_prop result ''extracted_sites'' = Inr (Some (JArray xs)) \<longrightarrow>
       performDiscovery generateContent JSON_parse typeErrorMessage ids draws ts query knownPatterns
         = Inr out \<longrightarrow>
         (\<forall>x\<in>set xs. get_prop x ''normalized_name'' = Inr (Some (JString (received_name x))))
       \<and> map normalized_name (out_sites out)
           = map (\<lambda>x. filter in_az09 (map char_toLowerCase (received_name x))) xs)
   \<and> map char_toLowerCase ''ABCDEFGHIJKLMNOPQRSTUVWXYZ'' = ''abcdefghijklmnopqrstuvwxyz''
   \<and> (\<forall>c\<in>set ''abcdefghijklmnopqrstuvwxyz0123456789''. char_toLowerCase c = c \<and> in_az09 c)"
proof (intro conjI impI ballI)
  fix site c
  assume p: "performDiscovery generateContent JSON_parse typeErrorMessage ids draws ts query
               knownPatterns = Inr out"
    and s: "site \<in> set (out_sites out)" and c: "c \<in> set (normalized_name site)"
  from p obtain response elements where
    l: "list_all2 (\<lambda>p g. make_site ids draws ts (grounding_sources response) p = Inr g)
          (zip [0..<length elements] elements) (out_sites out)"
    by (rule performDiscovery_Inr)
  have "map normalized_name (out_sites out)
          = map (\<lambda>x. strip_symbols (toLowerCase (received_name x))) elements"
    using names_of_made_sites [OF l] by simp
  moreover have "normalized_name site \<in> set (map normalized_name (out_sites out))"
    using s by simp
  ultimately obtain x where "normalized_name site = strip_symbols (toLowerCase (received_name x))"
    by auto
  then have "c \<in> set (strip_symbols (toLowerCase (received_name x)))"
    using c by (simp only:)
  then show "c \<in> set ''abcdefghijklmnopqrstuvwxyz0123456789''"
    by (rule subsetD [OF strip_symbols_chars])
next
  fix x
  assume "generateContent query (take 20 knownPatterns) = Inr response"
    and "JSON_parse (response_text response) = Some result"
    and "get_prop result ''extracted_sites'' = Inr (Some (JArray xs))"
    and "performDiscovery generateContent JSON_parse typeErrorMessage ids draws ts query
           knownPatterns = Inr out"
    and "x \<in> set xs"
  then show "get_prop x ''normalized_name'' = Inr (Some (JString (received_name x)))"
    using performDiscovery_names by blast
next
  assume "generateContent query (take 20 knownPatterns) = Inr response"
    and "JSON_parse (response_text response) = Some result"
    and "get_prop result ''extracted_sites'' = Inr (Some (JArray xs))"
    and "performDiscovery generateContent JSON_parse typeErrorMessage ids draws ts query
           knownPatterns = Inr out"
  then have "map normalized_name (out_sites out)
               = map (\<lambda>x. strip_symbols (toLowerCase (received_name x))) xs"
    using performDiscovery_names by blast
  then show "map normalized_name (out_sites out)
          = map (\<lambda>x. filter in_az09 (map char_toLowerCase (received_name x))) xs"
    by (simp add: strip_symbols_def toLowerCase_def)
next
  show "map char_toLowerCase ''ABCDEFGHIJKLMNOPQRSTUVWXYZ'' = ''abcdefghijklmnopqrstuvwxyz''"
    by (rule upper_to_lower)
next
  fix c assume "c \<in> set ''abcdefghijklmnopqrstuvwxyz0123456789''"
  then have "in_az09 c" by (simp only: in_az09_iff)
  then show "char_toLowerCase c = c" by (rule lower_kept)
next
  fix c assume "c \<in> set ''abcdefghijklmnopqrstuvwxyz0123456789''"
  then show "in_az09 c" by (simp only: in_az09_iff)
qed

lemma sample_sources: "grounding_sources (sample_response t) = [''https://example.org/a'']"
  by (simp add: grounding_sources_def sample_response_def chunk_uri_def truthy_def)

lemma sample_response_text: "response_text (sample_response t) = t"
  by (simp add: sample_response_def)

lemma sample_normalized: "strip_symbols (toLowerCase ''Slot-GACOR 88.Com'') = ''slotgacor88com''"
  by code_simp

lemma sample_text_differs:
  "''Service Unavailable'' \<noteq> sample_text" "''{}'' \<noteq> sample_text" "''null'' \<noteq> sample_text"
  by (simp_all add: sample_text_def)

lemma sample_received: "received_name sample_element = ''Slot-GACOR 88.Com''"
  by (simp add: received_name_def sample_element_def get_prop_def)

lemma sample_discovery:
  "performDiscovery (sample_generateContent sample_text) sample_parse sample_message
     (\<lambda>i. ''k3j9x2m1q'') (\<lambda>i. 2) ''2026-01-01T00:00:00.000Z'' ''slot gacor'' []
   = Inr \<lparr>out_sites =
            [\<lparr>site_id = ''k3j9x2m1q'', site_name = Some (JString ''Slot-GACOR 88.Com''),
              normalized_name = ''slotgacor88com'',
              first_seen = ''2026-01-01T00:00:00.000Z'', last_seen = ''2026-01-01T00:00:00.000Z'',
              confidence_score = Some (JNumber (9 / 10)), status = ACTIVE, source_count = 3,
              sources = [''https://example.org/a'']\<rparr>],
          out_sources = [''https://example.org/a'']\<rparr>"
  by (simp add: performDiscovery_def sample_generateContent_def sample_parse_def
      sample_sources make_site_def sample_normalized sample_response_text Let_def
      get_prop_def array_receiver_def string_receiver_def sample_element_def)

theorem performDiscovery_normalized_names_witness:
  "sample_generateContent sample_text ''slot gacor'' (take 20 []) = Inr (sample_response sample_text)
   \<and> sample_parse (response_text (sample_response sample_text))
       = Some (JObject [(''extracted_sites'', JArray [sample_element])])
   \<and> get_prop (JObject [(''extracted_sites'', JArray [sample_element])]) ''extracted_sites''
       = Inr (Some (JArray [sample_element]))
   \<and> performDiscovery (sample_generateContent sample_text) sample_parse sample_message
        (\<lambda>i. ''k3j9x2m1q'') (\<lambda>i. 2) ''2026-01-01T00:00:00.000Z'' ''slot gacor'' []
       = Inr \<lparr>out_sites =
            [\<lparr>site_id = ''k3j9x2m1q'', site_name = Some (JString ''Slot-GACOR 88.Com''),
              normalized_name = ''slotgacor88com'',
              first_seen = ''2026-01-01T00:00:00.000Z'', last_seen = ''2026-01-01T00:00:00.000Z'',
              confidence_score = Some (JNumber (9 / 10)), status = ACTIVE, source_count = 3,
              sources = [''https://example.org/a'']\<rparr>],
          out_sources = [''https://example.org/a'']\<rparr>
   \<and> set ''slotgacor88com'' \<subseteq> set ''abcdefghijklmnopqrstuvwxyz0123456789''
   \<and> filter in_az09 (map char_toLowerCase ''Slot-GACOR 88.Com'') = ''slotgacor88com''"
proof -
  have g: "sample_generateContent sample_text ''slot gacor'' (take 20 [])
             = Inr (sample_response sample_text)"
    by (simp add: sample_generateContent_def)
  have p: "sample_parse (response_text (sample_response sample_text))
             = Some (JObject [(''extracted_sites'', JArray [sample_element])])"
    by (simp add: sample_parse_def sample_response_text)
  have x: "get_prop (JObject [(''extracted_sites'', JArray [sample_element])]) ''extracted_sites''
             = Inr (Some (JArray [sample_element]))"
    by (simp add: get_prop_def)
  note inst = performDiscovery_normalized_names
        [where generateContent = "sample_generateContent sample_text"
           and JSON_parse = sample_parse and typeErrorMessage = sample_message
           and ids = "\<lambda>i. ''k3j9x2m1q''" and draws = "\<lambda>i. 2"
           and ts = "''2026-01-01T00:00:00.000Z''" and query = "''slot gacor''"
           and knownPatterns = "[]"
           and response = "sample_response sample_text"
           and result = "JObject [(''extracted_sites'', JArray [sample_element])]"
           and xs = "[sample_element]"
           and out = "\<lparr>out_sites =
            [\<lparr>site_id = ''k3j9x2m1q'', site_name = Some (JString ''Slot-GACOR 88.Com''),
              normalized_name = ''slotgacor88com'',
              first_seen = ''2026-01-01T00:00:00.000Z'', last_seen = ''2026-01-01T00:00:00.000Z'',
              confidence_score = Some (JNumber (9 / 10)), status = ACTIVE, source_count = 3,
              sources = [''https://example.org/a'']\<rparr>],
          out_sources = [''https://example.org/a'']\<rparr>"]
  have chars: "\<forall>site\<in>set (out_sites (\<lparr>out_sites =
            [\<lparr>site_id = ''k3j9x2m1q'', site_name = Some (JString ''Slot-GACOR 88.Com''),
              normalized_name = ''slotgacor88com'',
              first_seen = ''2026-01-01T00:00:00.000Z'', last_seen = ''2026-01-01T00:00:00.000Z'',
              confidence_score = Some (JNumber (9 / 10)), status = ACTIVE, source_count = 3,
              sources = [''https://example.org/a'']\<rparr>],
          out_sources = [''https://example.org/a'']\<rparr>)).
                 \<forall>c\<in>set (normalized_name site). c \<in> set ''abcdefghijklmnopqrstuvwxyz0123456789''"
    using conjunct1 [OF inst] sample_discovery by (rule mp)
  have sub: "set ''slotgacor88com'' \<subseteq> set ''abcdefghijklmnopqrstuvwxyz0123456789''"
    using chars by simp
  have names: "map normalized_name (out_sites (\<lparr>out_sites =
            [\<lparr>site_id = ''k3j9x2m1q'', site_name = Some (JString ''Slot-GACOR 88.Com''),
              normalized_name = ''slotgacor88com'',
              first_seen = ''2026-01-01T00:00:00.000Z'', last_seen = ''2026-01-01T00:00:00.000Z'',
              confidence_score = Some (JNumber (9 / 10)), status = ACTIVE, source_count = 3,
              sources = [''https://example.org/a'']\<rparr>],
          out_sources = [''https://example.org/a'']\<rparr>))
                 = map (\<lambda>x. filter in_az09 (map char_toLowerCase (received_name x)))
                     [sample_element]"
    using conjunct1 [OF conjunct2 [OF inst]] g p x sample_discovery by blast
  have n: "filter in_az09 (map char_toLowerCase ''Slot-GACOR 88.Com'') = ''slotgacor88com''"
    using names by (simp add: sample_received)
  show ?thesis
    by (rule conjI [OF g conjI [OF p conjI [OF x conjI [OF sample_discovery conjI [OF sub n]]]]])
qed

lemma addLog_entries:
  "e \<in> set (addLog now msg ty prev) \<Longrightarrow>
   e = \<lparr>timestamp = now, message = msg, log_type = ty\<rparr> \<or> e \<in> set prev"
  unfolding addLog_def by (drule in_set_takeD) simp

lemma logs_settle_success:
  "\<exists>m ty. ty \<noteq> Error
     \<and> logs (handleDiscovery_settle now cl (Inr out) a)
         = addLog now m ty (addLog now ''Discovery cycle complete.'' Success
             (if 0 < length (out_sources out)
              then addLog now (''Successfully indexed ''
                     @ string_of_nat (length (out_sources out)) @ '' public sources.'')
                     Success (logs a)
              else logs a))"
proof (cases "0 < int (length (mergeSites (out_sites out) (sites a))) - int (length (sites a))")
  case True
  then have "logs (handleDiscovery_settle now cl (Inr out) a)
         = addLog now (''Learned ''
             @ string_of_nat (nat (int (length (mergeSites (out_sites out) (sites a)))
                 - int (length (sites a))))
             @ '' new unique site signatures.'') Success
            (addLog now ''Discovery cycle complete.'' Success
             (if 0 < length (out_sources out)
              then addLog now (''Successfully indexed ''
                     @ string_of_nat (length (out_sources out)) @ '' public sources.'')
                     Success (logs a)
              else logs a))"
    by (simp add: handleDiscovery_settle_def startCountdown_def Let_def)
  then show ?thesis by blast
next
  case False
  then have "logs (handleDiscovery_settle now cl (Inr out) a)
         = addLog now ''No new unique signatures found in this cycle.'' Warning
            (addLog now ''Discovery cycle complete.'' Success
             (if 0 < length (out_sources out)
              then addLog now (''Successfully indexed ''
                     @ string_of_nat (length (out_sources out)) @ '' public sources.'')
                     Success (logs a)
              else logs a))"
    by (simp add: handleDiscovery_settle_def startCountdown_def Let_def)
  then show ?thesis by blast
qed

lemma addLog_error_entry:
  assumes "e \<in> set (addLog now msg ty prev)" and "log_type e = Error" and "ty \<noteq> Error"
  shows "e \<in> set prev"
proof -
  from assms(1) have "e = \<lparr>timestamp = now, message = msg, log_type = ty\<rparr> \<or> e \<in> set prev"
    by (rule addLog_entries)
  then show ?thesis using assms(2,3) by auto
qed

lemma settle_success_no_error_entry:
  assumes "e \<in> set (logs (handleDiscovery_settle now cl (Inr out) a))" and "log_type e = Error"
  shows "e \<in> set (logs a)"
proof -
  let ?l1 = "if 0 < length (out_sources out)
             then addLog now (''Successfully indexed ''
                    @ string_of_nat (length (out_sources out)) @ '' public sources.'')
                    Success (logs a)
             else logs a"
  let ?l2 = "addLog now ''Discovery cycle complete.'' Success ?l1"
  obtain m ty where ty: "ty \<noteq> Error"
    and l: "logs (handleDiscovery_settle now cl (Inr out) a) = addLog now m ty ?l2"
    using logs_settle_success [of now cl out a] by blast
  have "e \<in> set (addLog now m ty ?l2)" using assms(1) by (simp only: l)
  then have "e \<in> set ?l2" using assms(2) ty by (rule addLog_error_entry)
  then have 1: "e \<in> set ?l1" using assms(2) by (rule addLog_error_entry) simp
  show ?thesis
  proof (cases "0 < length (out_sources out)")
    case True
    then have "e \<in> set (addLog now (''Successfully indexed ''
                    @ string_of_nat (length (out_sources out)) @ '' public sources.'')
                    Success (logs a))"
      using 1 by simp
    then show ?thesis using assms(2) by (rule addLog_error_entry) simp
  next
    case False
    then show ?thesis using 1 by simp
  qed
qed

text \<open>
  Claim C9. When the service answers and the text of the answer is not parseable JSON,
  \<open>performDiscovery\<close> does not throw: the SyntaxError is caught inside, and the function
  returns an empty list of sites together with the grounding sources extracted from the
  answer. Handed to the rest of \<open>handleDiscovery\<close>, that result puts no entry of type
  error on the log stream: every error entry there afterwards was there before.
\<close>

theorem performDiscovery_unparseable:
  assumes "generateContent query (take 20 knownPatterns) = Inr response"
    and "JSON_parse (response_text response) = None"
  shows "performDiscovery generateContent JSON_parse typeErrorMessage ids draws ts query
           knownPatterns
           = Inr \<lparr>out_sites = [], out_sources = grounding_sources response\<rparr>
       \<and> (\<forall>e\<in>set (logs (handleDiscovery_settle now cl
                  (performDiscovery generateContent JSON_parse typeErrorMessage ids draws ts
                     query knownPatterns) a)).
             log_type e = Error \<longrightarrow> e \<in> set (logs a))"
proof -
  have r: "performDiscovery generateContent JSON_parse typeErrorMessage ids draws ts query
             knownPatterns
             = Inr \<lparr>out_sites = [], out_sources = grounding_sources response\<rparr>"
    using assms by (simp add: performDiscovery_def get_prop_def array_receiver_def)
  show ?thesis
    unfolding r using settle_success_no_error_entry by blast
qed

theorem performDiscovery_unparseable_witness:
  "sample_generateContent ''Service Unavailable'' ''slot gacor'' (take 20 [''alpha''])
     = Inr (sample_response ''Service Unavailable'')
   \<and> sample_parse (response_text (sample_response ''Service Unavailable'')) = None
   \<and> performDiscovery (sample_generateContent ''Service Unavailable'') sample_parse sample_message
        (\<lambda>i. ''k3j9x2m1q'') (\<lambda>i. 2) ''2026-01-01T00:00:00.000Z'' ''slot gacor'' [''alpha'']
       = Inr \<lparr>out_sites = [], out_sources = [''https://example.org/a'']\<rparr>
   \<and> filter (\<lambda>e. log_type e = Error)
        (logs (handleDiscovery_settle ''12:00:02'' sample_closure
           (performDiscovery (sample_generateContent ''Service Unavailable'') sample_parse
              sample_message (\<lambda>i. ''k3j9x2m1q'') (\<lambda>i. 2) ''2026-01-01T00:00:00.000Z''
              ''slot gacor'' [''alpha''])
           initial_App)) = []"
proof -
  have g: "sample_generateContent ''Service Unavailable'' ''slot gacor'' (take 20 [''alpha''])
             = Inr (sample_response ''Service Unavailable'')"
    by (simp add: sample_generateContent_def)
  have p: "sample_parse (response_text (sample_response ''Service Unavailable'')) = None"
    by (simp add: sample_parse_def sample_response_text sample_text_differs)
  note inst = performDiscovery_unparseable
      [where generateContent = "sample_generateContent ''Service Unavailable''"
         and JSON_parse = sample_parse and typeErrorMessage = sample_message
         and query = "''slot gacor''" and knownPatterns = "[''alpha'']"
         and response = "sample_response ''Service Unavailable''"
         and ids = "\<lambda>i. ''k3j9x2m1q''" and draws = "\<lambda>i. 2"
         and ts = "''2026-01-01T00:00:00.000Z''" and now = "''12:00:02''"
         and cl = sample_closure and a = initial_App, OF g p]
  have r: "performDiscovery (sample_generateContent ''Service Unavailable'') sample_parse
             sample_message (\<lambda>i. ''k3j9x2m1q'') (\<lambda>i. 2) ''2026-01-01T00:00:00.000Z''
             ''slot gacor'' [''alpha'']
           = Inr \<lparr>out_sites = [], out_sources = [''https://example.org/a'']\<rparr>"
    using conjunct1 [OF inst] by (simp add: sample_sources)
  have "\<forall>e\<in>set (logs (handleDiscovery_settle ''12:00:02'' sample_closure
           (performDiscovery (sample_generateContent ''Service Unavailable'') sample_parse
              sample_message (\<lambda>i. ''k3j9x2m1q'') (\<lambda>i. 2) ''2026-01-01T00:00:00.000Z''
              ''slot gacor'' [''alpha''])
           initial_App)). log_type e = Error \<longrightarrow> e \<in> set (logs initial_App)"
    by (rule conjunct2 [OF inst])
  then have f: "filter (\<lambda>e. log_type e = Error)
        (logs (handleDiscovery_settle ''12:00:02'' sample_closure
           (performDiscovery (sample_generateContent ''Service Unavailable'') sample_parse
              sample_message (\<lambda>i. ''k3j9x2m1q'') (\<lambda>i. 2) ''2026-01-01T00:00:00.000Z''
              ''slot gacor'' [''alpha''])
           initial_App)) = []"
    by (simp add: filter_empty_conv initial_App_def)
  show ?thesis by (rule conjI [OF g conjI [OF p conjI [OF r f]]])
qed

text \<open>
  Parseable text of another shape is not covered by that \<open>try\<close> block. Three answers on
  which the reads of lines 109 to 112 throw, and the TypeError leaves the function: the
  text \<open>{}\<close>, the text \<open>null\<close>, and an array whose element holds no string under
  \<open>normalized_name\<close>.
\<close>

lemma performDiscovery_misshaped_throws:
  assumes "generateContent query (take 20 knownPatterns) = Inr response"
  shows "JSON_parse (response_text response) = Some (JObject []) \<Longrightarrow>
          performDiscovery generateContent JSON_parse typeErrorMessage ids draws ts query
            knownPatterns = Inl (ErrorObject (typeErrorMessage (ReadOfUndefined ''map'')))"
    and "JSON_parse (response_text response) = Some JNull \<Longrightarrow>
          performDiscovery generateContent JSON_parse typeErrorMessage ids draws ts query
            knownPatterns = Inl (ErrorObject (typeErrorMessage (ReadOfNull ''extracted_sites'')))"
    and "JSON_parse (response_text response)
           = Some (JObject [(''extracted_sites'', JArray [JObject [(''site_name'', JString n)]])]) \<Longrightarrow>
          performDiscovery generateContent JSON_parse typeErrorMessage ids draws ts query
            knownPatterns = Inl (ErrorObject (typeErrorMessage (ReadOfUndefined ''toLowerCase'')))"
  using assms
  by (simp_all add: performDiscovery_def get_prop_def array_receiver_def string_receiver_def
      make_site_def)

lemma sample_misshaped_throws:
  "performDiscovery (sample_generateContent ''{}'') sample_parse sample_message
     (\<lambda>i. ''k3j9x2m1q'') (\<lambda>i. 2) ''2026-01-01T00:00:00.000Z'' ''slot gacor'' []
   = Inl (ErrorObject ''Cannot read properties of undefined (reading map)'')"
proof -
  have g: "sample_generateContent ''{}'' ''slot gacor'' (take 20 []) = Inr (sample_response ''{}'')"
    by (simp add: sample_generateContent_def)
  have p: "sample_parse (response_text (sample_response ''{}'')) = Some (JObject [])"
    by (simp add: sample_parse_def sample_response_text sample_text_differs)
  show ?thesis
    using performDiscovery_misshaped_throws(1)
      [where generateContent = "sample_generateContent ''{}''" and JSON_parse = sample_parse
         and typeErrorMessage = sample_message, OF g p]
    by (simp add: sample_message_def)
qed

section \<open>The autonomous loop\<close>

lemma isAutonomous_enter: "isAutonomous (app (handleDiscovery_enter now q c)) = isAutonomous (app c)"
  by (simp add: handleDiscovery_enter_def Let_def)

lemma isAutonomous_search: "isAutonomous (app (handleDiscovery_search now cl c)) = isAutonomous (app c)"
  by (simp add: handleDiscovery_search_def)

lemma isAutonomous_settle: "isAutonomous (handleDiscovery_settle now cl outcome a) = isAutonomous a"
  by (cases outcome) (simp_all add: handleDiscovery_settle_def startCountdown_def Let_def)

lemma step_while_off:
  assumes "step c l c'" and "\<not> isAutonomous (app c)"
  shows "l \<noteq> Tick \<and> (\<forall>q. l \<noteq> SelfQuery q) \<and> (l \<noteq> SwitchAutonomous \<longrightarrow> \<not> isAutonomous (app c'))"
  using assms
  by (cases rule: step.cases)
     (simp_all add: isAutonomous_enter isAutonomous_search isAutonomous_settle
        countdown_timer_def autonomous_guard_def)

lemma run_while_off:
  "run c ls c' \<Longrightarrow> \<not> isAutonomous (app c) \<Longrightarrow> SwitchAutonomous \<notin> set ls \<Longrightarrow>
   Tick \<notin> set ls \<and> (\<forall>q. SelfQuery q \<notin> set ls) \<and> \<not> isAutonomous (app c')"
proof (induction rule: run.induct)
  case (run_nil c)
  then show ?case by simp
next
  case (run_cons c l c' ls c'')
  have s: "l \<noteq> Tick \<and> (\<forall>q. l \<noteq> SelfQuery q) \<and> (l \<noteq> SwitchAutonomous \<longrightarrow> \<not> isAutonomous (app c'))"
    using run_cons.hyps(1) run_cons.prems(1) by (rule step_while_off)
  have "l \<noteq> SwitchAutonomous" "SwitchAutonomous \<notin> set ls" using run_cons.prems(2) by auto
  then show ?case using s run_cons.IH by auto
qed

lemma switch_off:
  assumes "step c SwitchAutonomous c'" and "isAutonomous (app c)"
  shows "\<not> isAutonomous (app c')"
  using assms by (cases rule: step.cases) (simp add: switchAutonomous_def)

text \<open>
  Claim C8. While \<open>isAutonomous\<close> is false the guard of the autonomous effect and the
  guard of the countdown effect are both false, so no step of the dashboard is a firing
  of the countdown timer or a self-evolved query. Along any run that starts with the flag
  off and does not switch it, no timer firing and no self-evolved query occurs and the
  flag is still off at the end; in particular this holds of every run that follows the
  switching off of the flag.
\<close>

theorem no_self_query_while_off:
  "(\<not> isAutonomous a \<longrightarrow> \<not> autonomous_guard a \<and> \<not> countdown_timer a)
   \<and> (\<not> isAutonomous (app c) \<longrightarrow> step c l c' \<longrightarrow> l \<noteq> Tick \<and> (\<forall>q. l \<noteq> SelfQuery q))
   \<and> (\<not> isAutonomous (app c) \<longrightarrow> run c ls c' \<longrightarrow> SwitchAutonomous \<notin> set ls \<longrightarrow>
        Tick \<notin> set ls \<and> (\<forall>q. SelfQuery q \<notin> set ls) \<and> \<not> isAutonomous (app c'))
   \<and> (isAutonomous (app b) \<longrightarrow> step b SwitchAutonomous c \<longrightarrow> run c ls c' \<longrightarrow>
        SwitchAutonomous \<notin> set ls \<longrightarrow>
        Tick \<notin> set ls \<and> (\<forall>q. SelfQuery q \<notin> set ls) \<and> \<not> isAutonomous (app c'))"
proof (intro conjI impI)
  assume "\<not> isAutonomous a"
  then show "\<not> autonomous_guard a" and "\<not> countdown_timer a"
    by (simp_all add: autonomous_guard_def countdown_timer_def)
next
  assume "\<not> isAutonomous (app c)" and "step c l c'"
  then show "l \<noteq> Tick" and "\<forall>q. l \<noteq> SelfQuery q"
    using step_while_off by blast+
next
  assume "\<not> isAutonomous (app c)" and "run c ls c'" and "SwitchAutonomous \<notin> set ls"
  then show "Tick \<notin> set ls" and "\<forall>q. SelfQuery q \<notin> set ls" and "\<not> isAutonomous (app c')"
    using run_while_off by blast+
next
  assume on: "isAutonomous (app b)" and sw: "step b SwitchAutonomous c"
    and r: "run c ls c'" and n: "SwitchAutonomous \<notin> set ls"
  have "\<not> isAutonomous (app c)" using sw on by (rule switch_off)
  then show "Tick \<notin> set ls" and "\<forall>q. SelfQuery q \<notin> set ls" and "\<not> isAutonomous (app c')"
    using run_while_off [OF r] n by blast+
qed

lemma sample_on_app:
  "isAutonomous (app sample_on) \<and> \<not> isSearching (app sample_on)
   \<and> nextCycleCountdown (app sample_on) = 0 \<and> sites (app sample_on) = []
   \<and> searchQuery (app sample_on) = ''situs slot gacor terbaru 2024''"
  by (simp add: sample_on_def switchAutonomous_def initial_Config_def initial_App_def)

lemma sample_auto_step:
  "step sample_on (SelfQuery ''situs slot gacor terbaru 2024'') sample_auto"
proof -
  have g: "autonomous_guard (app sample_on)"
    using sample_on_app by (simp add: autonomous_guard_def)
  have e: "sites (app sample_on) = []" using sample_on_app by simp
  have "step sample_on (SelfQuery (searchQuery (app sample_on)))
          (autonomous_trigger ''12:00:00'' (searchQuery (app sample_on)) sample_on)"
    using g e by (rule self_query_seed)
  then show ?thesis using sample_on_app by (simp add: sample_auto_def)
qed

lemma sample_auto_app:
  "pending sample_auto = Some (Waiting sample_auto_closure) \<and> isAutonomous (app sample_auto)"
  using sample_on_app
  by (simp add: sample_auto_def autonomous_trigger_def handleDiscovery_enter_def Let_def
      trim_initial_query sample_auto_closure_def)

lemma sample_off_run:
  "run sample_off [AnalysisDone, Settled (Inl NotAnError)] sample_off_end"
proof -
  have p: "pending sample_off = Some (Waiting sample_auto_closure)"
    using sample_auto_app by (simp add: sample_off_def)
  have 1: "step sample_off AnalysisDone
             (handleDiscovery_search ''12:00:02'' sample_auto_closure sample_off)"
    by (rule analysis_done [OF p])
  have q: "pending (handleDiscovery_search ''12:00:02'' sample_auto_closure sample_off)
             = Some (Calling sample_auto_closure)"
    by (simp add: handleDiscovery_search_def)
  have 2: "step (handleDiscovery_search ''12:00:02'' sample_auto_closure sample_off)
             (Settled (Inl NotAnError)) sample_off_end"
    unfolding sample_off_end_def by (rule settled [OF q])
  show ?thesis by (rule run_cons [OF 1 run_cons [OF 2 run_nil]])
qed

lemma sample_off_end_countdown: "nextCycleCountdown (app sample_off_end) = 15"
  by (simp add: sample_off_end_def handleDiscovery_settle_def startCountdown_def Let_def
      sample_auto_closure_def)

theorem no_self_query_while_off_witness:
  "step sample_on (SelfQuery ''situs slot gacor terbaru 2024'') sample_auto
   \<and> isAutonomous (app sample_auto)
   \<and> step sample_auto SwitchAutonomous sample_off
   \<and> \<not> isAutonomous (app sample_off)
   \<and> step sample_off AnalysisDone
        (handleDiscovery_search ''12:00:02'' sample_auto_closure sample_off)
   \<and> run sample_off [AnalysisDone, Settled (Inl NotAnError)] sample_off_end
   \<and> SwitchAutonomous \<notin> set [AnalysisDone, Settled (Inl NotAnError)]
   \<and> \<not> isAutonomous (app sample_off_end)
   \<and> nextCycleCountdown (app sample_off_end) = 15
   \<and> \<not> autonomous_guard (app sample_off_end)
   \<and> \<not> countdown_timer (app sample_off_end)"
proof -
  have on: "isAutonomous (app sample_auto)" using sample_auto_app by simp
  have sw: "step sample_auto SwitchAutonomous sample_off"
    unfolding sample_off_def by (rule switch_autonomous)
  have off: "\<not> isAutonomous (app sample_off)"
    using on by (simp add: sample_off_def switchAutonomous_def)
  have p: "pending sample_off = Some (Waiting sample_auto_closure)"
    using sample_auto_app by (simp add: sample_off_def)
  have st: "step sample_off AnalysisDone
             (handleDiscovery_search ''12:00:02'' sample_auto_closure sample_off)"
    by (rule analysis_done [OF p])
  have n: "SwitchAutonomous \<notin> set [AnalysisDone, Settled (Inl NotAnError)]" by simp
  note inst = no_self_query_while_off
    [where a = "app sample_off_end" and c = sample_off and l = AnalysisDone
       and c' = sample_off_end and ls = "[AnalysisDone, Settled (Inl NotAnError)]"
       and b = sample_auto]
  note inst_step = no_self_query_while_off
    [where a = "app sample_off" and c = sample_off and l = AnalysisDone
       and c' = "handleDiscovery_search ''12:00:02'' sample_auto_closure sample_off"]
  have "AnalysisDone \<noteq> Tick" using inst_step off st by blast
  have end_off: "\<not> isAutonomous (app sample_off_end)"
    using inst on sw sample_off_run n by blast
  then have "\<not> autonomous_guard (app sample_off_end) \<and> \<not> countdown_timer (app sample_off_end)"
    using inst by blast
  then show ?thesis
    using sample_auto_step on sw off st sample_off_run n end_off sample_off_end_countdown
    by blast
qed

section \<open>Failure of the discovery call\<close>

text \<open>
  The \<open>catch\<close> and \<open>finally\<close> clauses, whatever was thrown: one entry of type error is
  put on the log stream, the registry, the cycle counter and the mode flag stay as they
  are, and \<open>isSearching\<close> is reset. The countdown is set to 15 when the \<open>isAutonomous\<close>
  that the clause reads is true and left alone when it is false; that flag is the one of
  the render in which \<open>handleDiscovery\<close> was called. A throw of the service call itself
  leaves \<open>performDiscovery\<close> as that throw.
\<close>

lemma handleDiscovery_error_branch:
  "logs (handleDiscovery_settle now cl (Inl err) a)
     = addLog now (''Error during discovery: ''
         @ (case err of ErrorObject m \<Rightarrow> m | NotAnError \<Rightarrow> ''Unknown error'')) Error (logs a)
   \<and> log_type (hd (logs (handleDiscovery_settle now cl (Inl err) a))) = Error
   \<and> sites (handleDiscovery_settle now cl (Inl err) a) = sites a
   \<and> isSearching (handleDiscovery_settle now cl (Inl err) a) = False
   \<and> (cl_isAutonomous cl \<longrightarrow> nextCycleCountdown (handleDiscovery_settle now cl (Inl err) a) = 15)
   \<and> (\<not> cl_isAutonomous cl \<longrightarrow>
        nextCycleCountdown (handleDiscovery_settle now cl (Inl err) a) = nextCycleCountdown a)
   \<and> autoCycleCount (handleDiscovery_settle now cl (Inl err) a) = autoCycleCount a
   \<and> isAutonomous (handleDiscovery_settle now cl (Inl err) a) = isAutonomous a
   \<and> (generateContent query (take 20 knownPatterns) = Inl err \<longrightarrow>
        performDiscovery generateContent JSON_parse typeErrorMessage ids draws ts query
          knownPatterns = Inl err)"
  by (simp add: handleDiscovery_settle_def startCountdown_def addLog_def performDiscovery_def
      Let_def)

lemma initial_to_sample_on: "step initial_Config SwitchAutonomous sample_on"
  unfolding sample_on_def by (rule switch_autonomous)

lemma sample_on_to_off_end:
  "run initial_Config
     [SwitchAutonomous, SelfQuery ''situs slot gacor terbaru 2024'', SwitchAutonomous,
      AnalysisDone, Settled (Inl NotAnError)] sample_off_end"
proof -
  have sw: "step sample_auto SwitchAutonomous sample_off"
    unfolding sample_off_def by (rule switch_autonomous)
  show ?thesis
    by (rule run_cons [OF initial_to_sample_on
          run_cons [OF sample_auto_step run_cons [OF sw sample_off_run]]])
qed

lemma sample_late_on_run:
  "run initial_Config
     [ClickDiscover, SwitchAutonomous, AnalysisDone, Settled (Inl (ErrorObject ''quota exceeded''))]
     sample_late_on_end"
proof -
  have 1: "step initial_Config ClickDiscover sample_entered"
    unfolding sample_entered_def by (rule click_discover)
  have 2: "step sample_entered SwitchAutonomous sample_late_on"
    unfolding sample_late_on_def by (rule switch_autonomous)
  have p: "pending sample_late_on = Some (Waiting sample_closure)"
    using pending_sample_entered by (simp add: sample_late_on_def)
  have 3: "step sample_late_on AnalysisDone
             (handleDiscovery_search ''12:00:02'' sample_closure sample_late_on)"
    by (rule analysis_done [OF p])
  have q: "pending (handleDiscovery_search ''12:00:02'' sample_closure sample_late_on)
             = Some (Calling sample_closure)"
    by (simp add: handleDiscovery_search_def)
  have 4: "step (handleDiscovery_search ''12:00:02'' sample_closure sample_late_on)
             (Settled (Inl (ErrorObject ''quota exceeded''))) sample_late_on_end"
    unfolding sample_late_on_end_def by (rule settled [OF q])
  show ?thesis by (rule run_cons [OF 1 run_cons [OF 2 run_cons [OF 3 run_cons [OF 4 run_nil]]]])
qed

lemma sample_late_on_end_app:
  "isAutonomous (app sample_late_on_end) \<and> \<not> isSearching (app sample_late_on_end)
   \<and> nextCycleCountdown (app sample_late_on_end) = 0"
  by (simp add: sample_late_on_end_def handleDiscovery_settle_def startCountdown_def Let_def
      sample_closure_def handleDiscovery_search_def sample_late_on_def switchAutonomous_def
      sample_entered_def handleDiscovery_enter_def initial_Config_def initial_App_def
      trim_initial_query)

lemma sample_off_end_app:
  "\<not> isAutonomous (app sample_off_end)
   \<and> nextCycleCountdown (app (handleDiscovery_search ''12:00:02'' sample_auto_closure sample_off)) = 0"
  using sample_on_app
  by (simp add: sample_off_end_def isAutonomous_settle isAutonomous_search sample_off_def
      switchAutonomous_def sample_auto_def autonomous_trigger_def handleDiscovery_enter_def
      handleDiscovery_search_def Let_def trim_initial_query)

text \<open>
  Claim C4. The claim ties the countdown to the mode: set to 15 if and only if autonomous
  mode is on. The \<open>catch\<close> clause reads the flag of the render that called
  \<open>handleDiscovery\<close> instead, and the two differ when the mode is switched while the call
  is in flight. In the first run below the operator starts a discovery by hand, switches
  the mode on, and the call fails: the mode is on, the countdown stays 0 and the guard of
  the autonomous effect holds at once, so the next query goes out with no delay. In the
  second run a self-evolved query is in flight when the mode is switched off, and the
  call fails: the mode is off and the countdown goes from 0 to 15.
\<close>

theorem stale_flag_on_error:
  "run initial_Config
     [ClickDiscover, SwitchAutonomous, AnalysisDone, Settled (Inl (ErrorObject ''quota exceeded''))]
     sample_late_on_end
   \<and> isAutonomous (app sample_late_on_end)
   \<and> nextCycleCountdown (app sample_late_on_end) = 0
   \<and> autonomous_guard (app sample_late_on_end)
   \<and> run initial_Config
       [SwitchAutonomous, SelfQuery ''situs slot gacor terbaru 2024'', SwitchAutonomous,
        AnalysisDone, Settled (Inl NotAnError)] sample_off_end
   \<and> \<not> isAutonomous (app sample_off_end)
   \<and> nextCycleCountdown (app (handleDiscovery_search ''12:00:02'' sample_auto_closure sample_off)) = 0
   \<and> nextCycleCountdown (app sample_off_end) = 15"
  using sample_late_on_run sample_late_on_end_app sample_on_to_off_end sample_off_end_app
    sample_off_end_countdown
  by (simp add: autonomous_guard_def)

end
